theory Spec2Isabelle
  imports Main "HOL-Library.Word" "HOL-Library.AList" "HOL-Library.Multiset"
begin

section \<open>Data model (package models)\<close>

text \<open>
  \<^verbatim>\<open>type LogLevel int8\<close> with \<^verbatim>\<open>DebugLevel LogLevel = iota - 1\<close>: the seven named levels are
  the values -1 .. 5 of a signed byte; every other byte is a level without a name.
\<close>

type_synonym LogLevel = "8 word"

definition DebugLevel :: LogLevel where "DebugLevel = - 1"
definition InfoLevel :: LogLevel where "InfoLevel = 0"
definition WarnLevel :: LogLevel where "WarnLevel = 1"
definition ErrorLevel :: LogLevel where "ErrorLevel = 2"
definition DPanicLevel :: LogLevel where "DPanicLevel = 3"
definition PanicLevel :: LogLevel where "PanicLevel = 4"
definition FatalLevel :: LogLevel where "FatalLevel = 5"

lemmas level_defs =
  DebugLevel_def InfoLevel_def WarnLevel_def ErrorLevel_def
  DPanicLevel_def PanicLevel_def FatalLevel_def

definition FieldComponentKey :: string where "FieldComponentKey = ''component''"
definition FieldFilenameKey :: string where "FieldFilenameKey = ''filename''"

text \<open>\<^verbatim>\<open>type FieldType int8\<close>, four tags from \<^verbatim>\<open>iota\<close>.\<close>

type_synonym FieldType = "8 word"

definition FieldTypeString :: FieldType where "FieldTypeString = 0"
definition FieldTypeInt :: FieldType where "FieldTypeInt = 1"
definition FieldTypeFloat :: FieldType where "FieldTypeFloat = 2"
definition FieldTypeObject :: FieldType where "FieldTypeObject = 3"

lemmas field_type_defs =
  FieldTypeString_def FieldTypeInt_def FieldTypeFloat_def FieldTypeObject_def

text \<open>
  A value of type \<^verbatim>\<open>interface{}\<close>: the code only stores such values and hands them on,
  so a few shapes suffice. A \<^verbatim>\<open>float64\<close> is kept as its 64-bit IEEE pattern (the value 0.0
  is the pattern 0); a Go \<^verbatim>\<open>int\<close> is 64 bits wide. Neither is computed with here.
\<close>

datatype any = AnyNil | AnyInt "64 word" | AnyString string | AnyMap "(string \<times> string) list"

type_synonym float64 = "64 word"

record LogField =
  Key :: string
  Type :: FieldType
  Integer :: "64 word"
  Float :: float64
  String :: string
  Object :: any

text \<open>
  Modelled from the spec: the context keys \<^verbatim>\<open>models.AppID\<close> and \<^verbatim>\<open>models.EnvName\<close> are
  declared in a file that is not part of the sources at hand; the spec calls them the two
  well-known metadata keys (an application identifier, an environment name). A
  \<^verbatim>\<open>context.Context\<close> is modelled by the key/value pairs it carries (innermost first);
  \<^verbatim>\<open>context.Background()\<close> carries none, the nil interface is \<open>None\<close>.
\<close>

datatype ctx_key = AppID | EnvName | OtherKey string

type_synonym Context = "(ctx_key \<times> any) list"

definition Background :: Context where "Background = []"

definition Value :: "Context \<Rightarrow> ctx_key \<Rightarrow> any" where
  "Value ctx k = (case map_of ctx k of None \<Rightarrow> AnyNil | Some v \<Rightarrow> v)"

text \<open>The type assertion \<^verbatim>\<open>v.(string)\<close> in its two-result form.\<close>

fun as_string :: "any \<Rightarrow> string \<times> bool" where
  "as_string (AnyString s) = (s, True)"
| "as_string _ = ([], False)"

record LogData =
  Ctx :: "Context option"
  Msg :: string
  Fields :: "LogField list"
  Level :: LogLevel

section \<open>The zap publisher (package zap)\<close>

text \<open>
  The calls into the zap library are the publisher's output. A zap field constructor is
  kept as a constructor; a call of \<^verbatim>\<open>l.Error\<close>, \<^verbatim>\<open>l.Warn\<close>, ... is kept as an entry with the
  method, the message and the fields. The core built by \<^verbatim>\<open>NewZapLogger\<close> enables every
  level (\<^verbatim>\<open>getAllLevelFunc\<close>), so each such call writes one line.
\<close>

datatype zap_field =
    zap_Namespace string
  | zap_String string string
  | zap_Int string "64 word"
  | zap_Float64 string float64
  | zap_Any string any

datatype zap_method = zap_Error | zap_Warn | zap_Info | zap_Debug | zap_Fatal

record zap_entry =
  zmethod :: zap_method
  message :: string
  entry_fields :: "zap_field list"

record ZapLogger =
  appID :: string
  env :: string

definition NewZapLogger :: "string \<Rightarrow> string \<Rightarrow> ZapLogger" where
  "NewZapLogger a e = \<lparr>appID = a, env = e\<rparr>"

text \<open>The body of the loop of \<^verbatim>\<open>getPayloadFields\<close>: the switch on the field's type tag.\<close>

definition payload_case :: "zap_field list \<Rightarrow> LogField \<Rightarrow> zap_field list" where
  "payload_case resFields f =
     (if Type f = FieldTypeInt then resFields @ [zap_Int (Key f) (Integer f)]
      else if Type f = FieldTypeString then resFields @ [zap_String (Key f) (String f)]
      else if Type f = FieldTypeFloat then resFields @ [zap_Float64 (Key f) (Float f)]
      else if Type f = FieldTypeObject then resFields @ [zap_Any (Key f) (Object f)]
      else resFields)"

fun payload_loop :: "zap_field list \<Rightarrow> LogField list \<Rightarrow> zap_field list" where
  "payload_loop resFields [] = resFields"
| "payload_loop resFields (f # fs) = payload_loop (payload_case resFields f) fs"

definition getPayloadFields :: "LogData \<Rightarrow> zap_field list" where
  "getPayloadFields logData = payload_loop [zap_Namespace ''payload''] (Fields logData)"

text \<open>
  \<^verbatim>\<open>SendMsg\<close> returns nothing; what it does is (1) write \<^verbatim>\<open>logData.Ctx\<close> when that is nil and
  (2) call at most one zap method. The model returns the record as the call leaves it and
  the zap call made, if any.
\<close>

definition ctx_or_default :: "Context \<Rightarrow> ctx_key \<Rightarrow> string \<Rightarrow> string" where
  "ctx_or_default ctx k dflt =
     (let (v, ok) = as_string (Value ctx k) in if \<not> ok \<or> v = [] then dflt else v)"

definition level_switch :: "LogLevel \<Rightarrow> string \<Rightarrow> zap_field list \<Rightarrow> zap_entry option" where
  "level_switch lvl m fs =
     (if lvl = ErrorLevel then Some \<lparr>zmethod = zap_Error, message = m, entry_fields = fs\<rparr>
      else if lvl = WarnLevel then Some \<lparr>zmethod = zap_Warn, message = m, entry_fields = fs\<rparr>
      else if lvl = InfoLevel then Some \<lparr>zmethod = zap_Info, message = m, entry_fields = fs\<rparr>
      else if lvl = DebugLevel then Some \<lparr>zmethod = zap_Debug, message = m, entry_fields = fs\<rparr>
      else if lvl = FatalLevel then Some \<lparr>zmethod = zap_Fatal, message = m, entry_fields = fs\<rparr>
      else None)"

definition SendMsg :: "ZapLogger \<Rightarrow> LogData \<Rightarrow> LogData \<times> zap_entry option" where
  "SendMsg l logData0 =
     (let logData = (if Ctx logData0 = None then logData0\<lparr>Ctx := Some Background\<rparr> else logData0);
          ctx = the (Ctx logData);
          appID' = ctx_or_default ctx AppID (appID l);
          env' = ctx_or_default ctx EnvName (env l);
          fields = [zap_String ''service_name'' appID', zap_String ''env'' env'];
          resFields = getPayloadFields logData;
          fields' = fields @ resFields
      in (logData, level_switch (Level logData) (Msg logData) fields'))"

text \<open>The record of the repository's own test of zero values, and one field per type tag.\<close>

definition zero_int_field :: LogField where
  "zero_int_field = \<lparr>Key = ''int_field'', Type = FieldTypeInt, Integer = 0, Float = 0,
     String = [], Object = AnyNil\<rparr>"

definition zero_float_field :: LogField where
  "zero_float_field = \<lparr>Key = ''float_field'', Type = FieldTypeFloat, Integer = 0, Float = 0,
     String = [], Object = AnyNil\<rparr>"

definition zero_string_field :: LogField where
  "zero_string_field = \<lparr>Key = ''string_field'', Type = FieldTypeString, Integer = 0, Float = 0,
     String = [], Object = AnyNil\<rparr>"

definition zero_values_record :: LogData where
  "zero_values_record = \<lparr>Ctx = Some Background, Msg = ''test'',
     Fields = [zero_int_field, zero_float_field, zero_string_field], Level = InfoLevel\<rparr>"

section \<open>The logger service (package glog)\<close>

subsection \<open>Publishers, jobs, diagnostics\<close>

text \<open>
  A log record is shared by pointer (\<^verbatim>\<open>*models.LogData\<close>): records live in a store and
  jobs carry addresses. \<^verbatim>\<open>interfaces.LogPublisher\<close> has the single method
  \<^verbatim>\<open>SendMsg(data *models.LogData)\<close> with no result. What the service can observe of a call
  is how it ends, and what it can do to the shared record: it returns (leaving the record
  in some state), it panics, or it ends the process. A call that hangs is a call that is
  never scheduled.
\<close>

type_synonym addr = nat

datatype send_result = Returns LogData | Panics | Exits

type_synonym LogPublisher = "LogData \<Rightarrow> send_result"

text \<open>
  The bundled publisher. \<^verbatim>\<open>l.Fatal\<close> of the zap library writes the entry and then calls
  \<^verbatim>\<open>os.Exit(1)\<close> (see the comment at \<^verbatim>\<open>FatalLevel\<close>).
\<close>

definition zap_publisher :: "ZapLogger \<Rightarrow> LogPublisher" where
  "zap_publisher l d =
     (case SendMsg l d of
        (d', Some e) \<Rightarrow> if zmethod e = zap_Fatal then Exits else Returns d'
      | (d', None) \<Rightarrow> Returns d')"

text \<open>
  The \<^verbatim>\<open>mockPublisher\<close> of the tests (its \<^verbatim>\<open>sendFunc\<close> unset) appends the pointer to its own
  list and leaves the record alone; one whose \<^verbatim>\<open>sendFunc\<close> panics.
\<close>

definition mockPublisher :: LogPublisher where
  "mockPublisher d = Returns d"

definition panickingPublisher :: LogPublisher where
  "panickingPublisher d = Panics"

record sendJob =
  loggerID :: string
  logger :: LogPublisher
  logData :: addr

text \<open>
  The three \<^verbatim>\<open>fmt.Print\<close> statements of the service, with their arguments. \<^verbatim>\<open>sendTimeout\<close>
  is in milliseconds.
\<close>

datatype diagnostic =
    NoLoggersConfigured
  | LoggerIsNil string
  | FailedToSend string nat string

definition defaultInputBufferSize :: nat where "defaultInputBufferSize = 100"
definition defaultJobBufferSize :: nat where "defaultJobBufferSize = 1000"
definition defaultNumWorkers :: nat where "defaultNumWorkers = 4"
definition sendTimeout :: nat where "sendTimeout = 100"

subsection \<open>Buffered channels\<close>

text \<open>
  A buffered Go channel: a send on a closed channel panics, a send on a full one blocks;
  a receive takes the oldest value, blocks on an empty open channel, and reports
  \<^verbatim>\<open>ok = false\<close> on an empty closed one; closing a closed channel panics.
\<close>

record 'a chan =
  buf :: "'a list"
  cap :: nat
  is_closed :: bool

definition make_chan :: "nat \<Rightarrow> 'a chan" where
  "make_chan n = \<lparr>buf = [], cap = n, is_closed = False\<rparr>"

datatype 'a send_outcome = Sent "'a chan" | SendBlocks | SendPanics

definition chan_send :: "'a \<Rightarrow> 'a chan \<Rightarrow> 'a send_outcome" where
  "chan_send x c =
     (if is_closed c then SendPanics
      else if length (buf c) < cap c then Sent (c\<lparr>buf := buf c @ [x]\<rparr>)
      else SendBlocks)"

datatype 'a recv_outcome = Received 'a "'a chan" | RecvBlocks | RecvClosed

definition chan_recv :: "'a chan \<Rightarrow> 'a recv_outcome" where
  "chan_recv c =
     (case buf c of
        x # xs \<Rightarrow> Received x (c\<lparr>buf := xs\<rparr>)
      | [] \<Rightarrow> if is_closed c then RecvClosed else RecvBlocks)"

definition chan_close :: "'a chan \<Rightarrow> 'a chan option" where
  "chan_close c = (if is_closed c then None else Some (c\<lparr>is_closed := True\<rparr>))"

subsection \<open>The snapshot loop of processLogData\<close>

text \<open>
  The registry \<^verbatim>\<open>map[string]interfaces.LogPublisher\<close> is an association list with one entry
  per key; a stored nil interface is the value \<open>None\<close>. Go leaves the order of a \<^verbatim>\<open>range\<close>
  over a map open: the list order stands for whichever order the runtime picks, and
  nothing below depends on it.
\<close>

type_synonym registry = "(string \<times> LogPublisher option) list"

text \<open>
  \<^verbatim>\<open>for id, logger := range ls.loggers\<close>: a nil entry prints and is skipped, every other
  entry appends one job. The accumulators are the slice \<^verbatim>\<open>jobs\<close> and the lines printed.
\<close>

fun range_loggers ::
  "registry \<Rightarrow> addr \<Rightarrow> sendJob list \<Rightarrow> diagnostic list \<Rightarrow> sendJob list \<times> diagnostic list" where
  "range_loggers [] p jobs out = (jobs, out)"
| "range_loggers ((i, None) # rest) p jobs out =
     range_loggers rest p jobs (out @ [LoggerIsNil i])"
| "range_loggers ((i, Some l) # rest) p jobs out =
     range_loggers rest p (jobs @ [\<lparr>loggerID = i, logger = l, logData = p\<rparr>]) out"

text \<open>
  \<^verbatim>\<open>processLogData\<close> from its entry to \<^verbatim>\<open>RUnlock\<close>: the jobs to send and the lines printed.
  The part under the read lock cannot interleave with \<^verbatim>\<open>AddLogger\<close> or \<^verbatim>\<open>RemoveLogger\<close>,
  which take the write lock.
\<close>

definition snapshot_jobs :: "registry \<Rightarrow> addr option \<Rightarrow> sendJob list \<times> diagnostic list" where
  "snapshot_jobs lgs logData' =
     (case logData' of
        None \<Rightarrow> ([], [])
      | Some p \<Rightarrow>
          if length lgs = 0 then ([], [NoLoggersConfigured])
          else range_loggers lgs p [] [])"

text \<open>
  For stating what the loop yields: the entries of a registry that hold a publisher, the
  ids of the entries that hold nil, and the job the loop appends for an entry.
\<close>

fun publishers_of :: "registry \<Rightarrow> (string \<times> LogPublisher) list" where
  "publishers_of [] = []"
| "publishers_of ((i, None) # rest) = publishers_of rest"
| "publishers_of ((i, Some l) # rest) = (i, l) # publishers_of rest"

fun nil_ids :: "registry \<Rightarrow> string list" where
  "nil_ids [] = []"
| "nil_ids ((i, None) # rest) = i # nil_ids rest"
| "nil_ids ((i, Some l) # rest) = nil_ids rest"

definition job_of :: "addr \<Rightarrow> string \<times> LogPublisher \<Rightarrow> sendJob" where
  "job_of p e = \<lparr>loggerID = fst e, logger = snd e, logData = p\<rparr>"

subsection \<open>The state of the running service\<close>

text \<open>
  The goroutines of the service and where each of them stands.

  \<^item> \<^verbatim>\<open>runMainWorker\<close>: at the \<^verbatim>\<open>select\<close>; at the \<^verbatim>\<open>range\<close> over the input channel after the
    stop case; inside \<^verbatim>\<open>processLogData\<close> before the read lock (the flag tells which of the
    two loops called it); in its final loop with the jobs still to send; at the deferred
    \<^verbatim>\<open>close(ls.jobCh)\<close>; at the deferred \<^verbatim>\<open>ls.mainWg.Done()\<close>; gone.
  \<^item> \<^verbatim>\<open>runWorker\<close>: at \<^verbatim>\<open>range ls.jobCh\<close>; at the \<^verbatim>\<open>select\<close> of \<^verbatim>\<open>processJob\<close> for a job, with
    the number of the goroutine it spawned (whose \<^verbatim>\<open>doneCh\<close> it waits on); gone.
  \<^item> the goroutine of \<^verbatim>\<open>processJob\<close>: before \<^verbatim>\<open>SendMsg\<close>; after it and before
    \<^verbatim>\<open>close(doneCh)\<close>; done.
  \<^item> the caller of \<^verbatim>\<open>Stop\<close>: not called; at \<^verbatim>\<open>mainWg.Wait()\<close>; at \<^verbatim>\<open>wg.Wait()\<close>; returned.
\<close>

datatype main_pc =
    MNotStarted
  | MSelect
  | MRange
  | MProcess bool "addr option"
  | MSendJobs bool "sendJob list"
  | MDeferClose
  | MDeferDone
  | MExited

datatype worker_pc = WRange | WSelect sendJob nat | WExited

datatype task_state = TStart | TSent | TClosed

record task =
  tjob :: sendJob
  tstate :: task_state

datatype stop_pc = SNotCalled | SWaitMain | SWaitWorkers | SReturned

datatype halt = Panic | OsExit

text \<open>
  The fields of \<^verbatim>\<open>LoggerService\<close> come first (the two wait groups are their counters, the
  stop channel is whether it has been closed, the mutex is the atomicity of the steps that
  hold it). Then the goroutines, the store of records, the producer goroutines
  \<^verbatim>\<open>go l.sendData(logData)\<close> that have not sent yet, and whether the process has ended.
  The last seven fields only record what happened: the lines printed, the calls of
  \<^verbatim>\<open>SendMsg\<close> in the order they were made (publisher id, record, its content at the call),
  the pointers sent on and received from the input channel, the jobs created, the records
  for which \<^verbatim>\<open>processLogData\<close> took its snapshot (each with the registry it saw), and the
  goroutines of \<^verbatim>\<open>processJob\<close> whose worker left its select through the timeout case.
\<close>

record LoggerService =
  inputCh :: "addr option chan"
  jobCh :: "sendJob chan"
  stopCh :: bool
  numWorkers :: nat
  loggers :: registry
  wg :: nat
  mainWg :: nat
  mainWorker :: main_pc
  workers :: "worker_pc list"
  tasks :: "task list"
  stopCall :: stop_pc
  heap :: "LogData list"
  senders :: "addr option list"
  halted :: "halt option"
  stdout :: "diagnostic list"
  calls :: "(string \<times> addr \<times> LogData) list"
  accepted :: "addr option list"
  received :: "addr option list"
  created :: "sendJob list"
  dispatched :: "(addr option \<times> registry) list"
  timed_out :: "nat list"

definition NewLoggerService :: LoggerService where
  "NewLoggerService =
     \<lparr>inputCh = make_chan defaultInputBufferSize,
      jobCh = make_chan defaultJobBufferSize,
      stopCh = False,
      numWorkers = defaultNumWorkers,
      loggers = [],
      wg = 0, mainWg = 0,
      mainWorker = MNotStarted, workers = [], tasks = [], stopCall = SNotCalled,
      heap = [], senders = [], halted = None,
      stdout = [], calls = [], accepted = [], received = [], created = [],
      dispatched = [], timed_out = []\<rparr>"

definition AddLogger :: "string \<Rightarrow> LogPublisher option \<Rightarrow> LoggerService \<Rightarrow> LoggerService" where
  "AddLogger loggerID' logger' ls = ls\<lparr>loggers := AList.update loggerID' logger' (loggers ls)\<rparr>"

definition RemoveLogger :: "string \<Rightarrow> LoggerService \<Rightarrow> LoggerService" where
  "RemoveLogger loggerID' ls = ls\<lparr>loggers := AList.delete loggerID' (loggers ls)\<rparr>"

definition Start :: "LoggerService \<Rightarrow> LoggerService" where
  "Start ls = ls\<lparr>mainWg := mainWg ls + 1, mainWorker := MSelect,
                 wg := wg ls + numWorkers ls,
                 workers := replicate (numWorkers ls) WRange\<rparr>"

subsection \<open>The front end (type Logger)\<close>

record Options =
  withStackTrace :: bool
  component :: string
  opt_fields :: "LogField list"

type_synonym Option = "Options \<Rightarrow> Options"

definition WithComponent :: "string \<Rightarrow> Option" where
  "WithComponent c opts = opts\<lparr>component := c\<rparr>"

definition WithIntField :: "string \<Rightarrow> 64 word \<Rightarrow> Option" where
  "WithIntField k v opts = opts\<lparr>opt_fields := opt_fields opts @
     [\<lparr>Key = k, Type = FieldTypeInt, Integer = v, Float = 0, String = [], Object = AnyNil\<rparr>]\<rparr>"

definition WithFloatField :: "string \<Rightarrow> float64 \<Rightarrow> Option" where
  "WithFloatField k v opts = opts\<lparr>opt_fields := opt_fields opts @
     [\<lparr>Key = k, Type = FieldTypeFloat, Integer = 0, Float = v, String = [], Object = AnyNil\<rparr>]\<rparr>"

definition WithStringField :: "string \<Rightarrow> string \<Rightarrow> Option" where
  "WithStringField k v opts = opts\<lparr>opt_fields := opt_fields opts @
     [\<lparr>Key = k, Type = FieldTypeString, Integer = 0, Float = 0, String = v, Object = AnyNil\<rparr>]\<rparr>"

text \<open>
  \<^verbatim>\<open>logMsg\<close> up to its last line: the record it builds. \<^verbatim>\<open>NewLogMessage\<close> with \<^verbatim>\<open>SetComponent\<close>
  and \<^verbatim>\<open>SetFields\<close> only carry the level, the message, the component and the fields over;
  the component field is appended always, its type tag left at the zero value.
\<close>

definition logMsg :: "Context option \<Rightarrow> LogLevel \<Rightarrow> string \<Rightarrow> Option list \<Rightarrow> LogData" where
  "logMsg ctx level message' options =
     (let opts = fold (\<lambda>opt acc. opt acc) options
                   \<lparr>withStackTrace = False, component = [], opt_fields = []\<rparr>
      in \<lparr>Ctx = ctx, Msg = message',
          Fields = opt_fields opts @
            [\<lparr>Key = FieldComponentKey, Type = 0, Integer = 0, Float = 0,
              String = component opts, Object = AnyNil\<rparr>],
          Level = level\<rparr>)"

subsection \<open>The steps of the goroutines\<close>

text \<open>
  Each definition is one atomic step of one goroutine; \<open>None\<close> means that the goroutine
  is not at that statement or that the statement blocks. An unrecovered panic in any
  goroutine ends the process, and so does \<^verbatim>\<open>os.Exit\<close>.
\<close>

text \<open>
  The last line of \<^verbatim>\<open>logMsg\<close> and of \<^verbatim>\<open>error\<close>: the record is allocated and
  \<^verbatim>\<open>go l.sendData(logData)\<close> starts a goroutine holding the pointer. A goroutine holding
  nil stands for a caller that sends nil on the channel \<^verbatim>\<open>GetInputChan\<close> hands out.
\<close>

definition go_sendData :: "LogData \<Rightarrow> LoggerService \<Rightarrow> LoggerService" where
  "go_sendData d ls = ls\<lparr>heap := heap ls @ [d], senders := senders ls @ [Some (length (heap ls))]\<rparr>"

definition go_sendNil :: "LoggerService \<Rightarrow> LoggerService" where
  "go_sendNil ls = ls\<lparr>senders := senders ls @ [None]\<rparr>"

text \<open>\<^verbatim>\<open>sendData\<close>: \<^verbatim>\<open>l.logChan <- logData\<close>, by the \<open>k\<close>-th of the waiting producer goroutines.\<close>

definition sendData :: "nat \<Rightarrow> LoggerService \<Rightarrow> LoggerService option" where
  "sendData k ls =
     (if k < length (senders ls) then
        (case chan_send (senders ls ! k) (inputCh ls) of
           Sent c \<Rightarrow>
             Some (ls\<lparr>inputCh := c,
                       senders := take k (senders ls) @ drop (Suc k) (senders ls),
                       accepted := accepted ls @ [senders ls ! k]\<rparr>)
         | SendBlocks \<Rightarrow> None
         | SendPanics \<Rightarrow> Some (ls\<lparr>halted := Some Panic\<rparr>))
      else None)"

text \<open>The application closes the stop channel it gave to \<^verbatim>\<open>NewLoggerService\<close>.\<close>

definition close_stopCh :: "LoggerService \<Rightarrow> LoggerService option" where
  "close_stopCh ls =
     (if stopCh ls then Some (ls\<lparr>halted := Some Panic\<rparr>) else Some (ls\<lparr>stopCh := True\<rparr>))"

definition loop_pc :: "bool \<Rightarrow> main_pc" where
  "loop_pc in_range = (if in_range then MRange else MSelect)"

text \<open>\<^verbatim>\<open>runMainWorker\<close>: the case \<^verbatim>\<open><-ls.stopCh\<close> of the select.\<close>

definition main_stop_case :: "LoggerService \<Rightarrow> LoggerService option" where
  "main_stop_case ls =
     (case mainWorker ls of
        MSelect \<Rightarrow> if stopCh ls then Some (ls\<lparr>mainWorker := MRange\<rparr>) else None
      | _ \<Rightarrow> None)"

text \<open>
  \<^verbatim>\<open>runMainWorker\<close>: a receive from the input channel, either the case
  \<^verbatim>\<open>logData, ok := <-ls.inputCh\<close> of the select (with \<^verbatim>\<open>if !ok { return }\<close>) or the next round
  of the \<^verbatim>\<open>range\<close> loop (which ends, and the function returns, on a closed empty channel).
\<close>

definition main_recv :: "LoggerService \<Rightarrow> LoggerService option" where
  "main_recv ls =
     (case mainWorker ls of
        MSelect \<Rightarrow>
          (case chan_recv (inputCh ls) of
             Received p c \<Rightarrow>
               Some (ls\<lparr>inputCh := c, mainWorker := MProcess False p, received := received ls @ [p]\<rparr>)
           | RecvClosed \<Rightarrow> Some (ls\<lparr>mainWorker := MDeferClose\<rparr>)
           | RecvBlocks \<Rightarrow> None)
      | MRange \<Rightarrow>
          (case chan_recv (inputCh ls) of
             Received p c \<Rightarrow>
               Some (ls\<lparr>inputCh := c, mainWorker := MProcess True p, received := received ls @ [p]\<rparr>)
           | RecvClosed \<Rightarrow> Some (ls\<lparr>mainWorker := MDeferClose\<rparr>)
           | RecvBlocks \<Rightarrow> None)
      | _ \<Rightarrow> None)"

text \<open>
  \<^verbatim>\<open>processLogData\<close> from its entry to \<^verbatim>\<open>RUnlock\<close>; with no job to send the function is over
  and the caller's loop goes on.
\<close>

definition processLogData :: "LoggerService \<Rightarrow> LoggerService option" where
  "processLogData ls =
     (case mainWorker ls of
        MProcess in_range p \<Rightarrow>
          (case snapshot_jobs (loggers ls) p of
             (jobs, out) \<Rightarrow>
               Some (ls\<lparr>stdout := stdout ls @ out,
                         created := created ls @ jobs,
                         dispatched := dispatched ls @ [(p, loggers ls)],
                         mainWorker := (case jobs of [] \<Rightarrow> loop_pc in_range
                                        | _ # _ \<Rightarrow> MSendJobs in_range jobs)\<rparr>))
      | _ \<Rightarrow> None)"

text \<open>\<^verbatim>\<open>processLogData\<close>, the final loop: \<^verbatim>\<open>ls.jobCh <- job\<close>.\<close>

definition send_job :: "LoggerService \<Rightarrow> LoggerService option" where
  "send_job ls =
     (case mainWorker ls of
        MSendJobs in_range jobs \<Rightarrow>
          (case jobs of
             [] \<Rightarrow> None
           | job # rest \<Rightarrow>
               (case chan_send job (jobCh ls) of
                  Sent c \<Rightarrow>
                    Some (ls\<lparr>jobCh := c,
                              mainWorker := (case rest of [] \<Rightarrow> loop_pc in_range
                                             | _ # _ \<Rightarrow> MSendJobs in_range rest)\<rparr>)
                | SendBlocks \<Rightarrow> None
                | SendPanics \<Rightarrow> Some (ls\<lparr>halted := Some Panic\<rparr>)))
      | _ \<Rightarrow> None)"

text \<open>
  \<^verbatim>\<open>runMainWorker\<close> returning: the deferred calls run last in, first out, so
  \<^verbatim>\<open>close(ls.jobCh)\<close> comes before \<^verbatim>\<open>ls.mainWg.Done()\<close>. \<^verbatim>\<open>Done\<close> on a zero counter panics.
\<close>

definition main_defer :: "LoggerService \<Rightarrow> LoggerService option" where
  "main_defer ls =
     (case mainWorker ls of
        MDeferClose \<Rightarrow>
          (case chan_close (jobCh ls) of
             None \<Rightarrow> Some (ls\<lparr>halted := Some Panic\<rparr>)
           | Some c \<Rightarrow> Some (ls\<lparr>jobCh := c, mainWorker := MDeferDone\<rparr>))
      | MDeferDone \<Rightarrow>
          if mainWg ls = 0 then Some (ls\<lparr>halted := Some Panic\<rparr>)
          else Some (ls\<lparr>mainWg := mainWg ls - 1, mainWorker := MExited\<rparr>)
      | _ \<Rightarrow> None)"

text \<open>
  \<^verbatim>\<open>runWorker\<close>: the next round of \<^verbatim>\<open>for job := range ls.jobCh\<close>. With a job, \<^verbatim>\<open>processJob\<close>
  makes \<^verbatim>\<open>doneCh\<close>, starts the goroutine and stands at its select. On a closed empty
  channel the loop ends and the deferred \<^verbatim>\<open>ls.wg.Done()\<close> runs.
\<close>

definition runWorker :: "nat \<Rightarrow> LoggerService \<Rightarrow> LoggerService option" where
  "runWorker i ls =
     (if i < length (workers ls) then
        (case workers ls ! i of
           WRange \<Rightarrow>
             (case chan_recv (jobCh ls) of
                Received job c \<Rightarrow>
                  Some (ls\<lparr>jobCh := c,
                            tasks := tasks ls @ [\<lparr>tjob = job, tstate = TStart\<rparr>],
                            workers := (workers ls)[i := WSelect job (length (tasks ls))]\<rparr>)
              | RecvClosed \<Rightarrow>
                  if wg ls = 0 then Some (ls\<lparr>halted := Some Panic\<rparr>)
                  else Some (ls\<lparr>wg := wg ls - 1, workers := (workers ls)[i := WExited]\<rparr>)
              | RecvBlocks \<Rightarrow> None)
         | _ \<Rightarrow> None)
      else None)"

text \<open>
  The goroutine of \<^verbatim>\<open>processJob\<close>: \<^verbatim>\<open>job.logger.SendMsg(job.logData)\<close>. Nothing recovers a
  panic of the call.
\<close>

definition task_SendMsg :: "nat \<Rightarrow> LoggerService \<Rightarrow> LoggerService option" where
  "task_SendMsg t ls =
     (if t < length (tasks ls) then
        (case tstate (tasks ls ! t) of
           TStart \<Rightarrow>
             (let job = tjob (tasks ls ! t);
                  d = heap ls ! logData job;
                  ls' = ls\<lparr>calls := calls ls @ [(loggerID job, logData job, d)]\<rparr>
              in case logger job d of
                   Returns d' \<Rightarrow>
                     Some (ls'\<lparr>heap := (heap ls)[logData job := d'],
                               tasks := (tasks ls)[t := (tasks ls ! t)\<lparr>tstate := TSent\<rparr>]\<rparr>)
                 | Panics \<Rightarrow> Some (ls'\<lparr>halted := Some Panic\<rparr>)
                 | Exits \<Rightarrow> Some (ls'\<lparr>halted := Some OsExit\<rparr>))
         | _ \<Rightarrow> None)
      else None)"

text \<open>The goroutine of \<^verbatim>\<open>processJob\<close>: \<^verbatim>\<open>close(doneCh)\<close>.\<close>

definition task_close :: "nat \<Rightarrow> LoggerService \<Rightarrow> LoggerService option" where
  "task_close t ls =
     (if t < length (tasks ls) then
        (case tstate (tasks ls ! t) of
           TSent \<Rightarrow> Some (ls\<lparr>tasks := (tasks ls)[t := (tasks ls ! t)\<lparr>tstate := TClosed\<rparr>]\<rparr>)
         | _ \<Rightarrow> None)
      else None)"

text \<open>\<^verbatim>\<open>processJob\<close>, the select: the case \<^verbatim>\<open><-doneCh\<close>.\<close>

definition processJob_done :: "nat \<Rightarrow> LoggerService \<Rightarrow> LoggerService option" where
  "processJob_done i ls =
     (if i < length (workers ls) then
        (case workers ls ! i of
           WSelect job t \<Rightarrow>
             if t < length (tasks ls) \<and> tstate (tasks ls ! t) = TClosed
             then Some (ls\<lparr>workers := (workers ls)[i := WRange]\<rparr>)
             else None
         | _ \<Rightarrow> None)
      else None)"

text \<open>
  \<^verbatim>\<open>processJob\<close>, the select: the case \<^verbatim>\<open><-time.After(sendTimeout)\<close>. When the timer fires is
  up to the run: the step is possible whenever the worker stands at the select. It prints
  and returns; the goroutine it started is not touched.
\<close>

definition processJob_timeout :: "nat \<Rightarrow> LoggerService \<Rightarrow> LoggerService option" where
  "processJob_timeout i ls =
     (if i < length (workers ls) then
        (case workers ls ! i of
           WSelect job t \<Rightarrow>
             Some (ls\<lparr>stdout := stdout ls @
                         [FailedToSend (loggerID job) sendTimeout (Msg (heap ls ! logData job))],
                       workers := (workers ls)[i := WRange],
                       timed_out := timed_out ls @ [t]\<rparr>)
         | _ \<Rightarrow> None)
      else None)"

text \<open>\<^verbatim>\<open>Stop\<close>: \<^verbatim>\<open>close(ls.inputCh)\<close>, then \<^verbatim>\<open>ls.mainWg.Wait()\<close>, then \<^verbatim>\<open>ls.wg.Wait()\<close>.\<close>

definition Stop_close :: "LoggerService \<Rightarrow> LoggerService option" where
  "Stop_close ls =
     (case chan_close (inputCh ls) of
        None \<Rightarrow> Some (ls\<lparr>halted := Some Panic\<rparr>)
      | Some c \<Rightarrow> Some (ls\<lparr>inputCh := c, stopCall := SWaitMain\<rparr>))"

definition Stop_wait_main :: "LoggerService \<Rightarrow> LoggerService option" where
  "Stop_wait_main ls =
     (case stopCall ls of
        SWaitMain \<Rightarrow> if mainWg ls = 0 then Some (ls\<lparr>stopCall := SWaitWorkers\<rparr>) else None
      | _ \<Rightarrow> None)"

definition Stop_wait_workers :: "LoggerService \<Rightarrow> LoggerService option" where
  "Stop_wait_workers ls =
     (case stopCall ls of
        SWaitWorkers \<Rightarrow> if wg ls = 0 then Some (ls\<lparr>stopCall := SReturned\<rparr>) else None
      | _ \<Rightarrow> None)"

subsection \<open>Runs\<close>

text \<open>
  A run is the list of the steps taken, in the order the scheduler takes them; any
  interleaving of the goroutines is some such list. A step that is not possible makes the
  list no run (\<open>None\<close>); after the process has ended no step is possible.
\<close>

datatype action =
    Log LogData
  | SendNil
  | SendData nat
  | Add string "LogPublisher option"
  | Remove string
  | CloseStopCh
  | MainStopCase
  | MainRecv
  | MainProcess
  | MainSendJob
  | MainDefer
  | WorkerRange nat
  | TaskSendMsg nat
  | TaskClose nat
  | WorkerDone nat
  | WorkerTimeout nat
  | StopClose
  | StopWaitMain
  | StopWaitWorkers

fun do_action :: "action \<Rightarrow> LoggerService \<Rightarrow> LoggerService option" where
  "do_action (Log d) ls = Some (go_sendData d ls)"
| "do_action SendNil ls = Some (go_sendNil ls)"
| "do_action (SendData k) ls = sendData k ls"
| "do_action (Add i l) ls = Some (AddLogger i l ls)"
| "do_action (Remove i) ls = Some (RemoveLogger i ls)"
| "do_action CloseStopCh ls = close_stopCh ls"
| "do_action MainStopCase ls = main_stop_case ls"
| "do_action MainRecv ls = main_recv ls"
| "do_action MainProcess ls = processLogData ls"
| "do_action MainSendJob ls = send_job ls"
| "do_action MainDefer ls = main_defer ls"
| "do_action (WorkerRange i) ls = runWorker i ls"
| "do_action (TaskSendMsg t) ls = task_SendMsg t ls"
| "do_action (TaskClose t) ls = task_close t ls"
| "do_action (WorkerDone i) ls = processJob_done i ls"
| "do_action (WorkerTimeout i) ls = processJob_timeout i ls"
| "do_action StopClose ls = Stop_close ls"
| "do_action StopWaitMain ls = Stop_wait_main ls"
| "do_action StopWaitWorkers ls = Stop_wait_workers ls"

definition step :: "action \<Rightarrow> LoggerService \<Rightarrow> LoggerService option" where
  "step a ls = (if halted ls \<noteq> None then None else do_action a ls)"

fun run :: "action list \<Rightarrow> LoggerService \<Rightarrow> LoggerService option" where
  "run [] ls = Some ls"
| "run (a # as) ls = (case step a ls of None \<Rightarrow> None | Some ls' \<Rightarrow> run as ls')"

subsection \<open>States used as concrete inputs\<close>

definition record_m1 :: LogData where
  "record_m1 = logMsg (Some Background) InfoLevel ''m1'' []"

text \<open>
  A started service with three registry entries (a mock, a nil entry, the zap publisher)
  whose main worker has just received the record at address 0.
\<close>

definition registry_schedule :: "action list" where
  "registry_schedule =
     [Add ''P'' (Some mockPublisher), Add ''Q'' None,
      Add ''Z'' (Some (zap_publisher (NewZapLogger ''app'' ''dev''))),
      Log record_m1, SendData 0, MainRecv]"

definition dispatch_state :: LoggerService where
  "dispatch_state = the (run registry_schedule (Start NewLoggerService))"

text \<open>A producer whose send comes after \<^verbatim>\<open>Stop\<close> has closed the input channel.\<close>

definition late_send_schedule :: "action list" where
  "late_send_schedule = [Add ''P'' (Some mockPublisher), Log record_m1, StopClose, SendData 0]"

text \<open>
  One hundred nil pointers sent while the main worker does not run fill the input channel;
  one more producer then waits.
\<close>

definition full_intake_schedule :: "action list" where
  "full_intake_schedule = concat (replicate 100 [SendNil, SendData 0]) @ [SendNil]"

definition full_intake_state :: LoggerService where
  "full_intake_state = the (run full_intake_schedule (Start NewLoggerService))"

definition one_sender_state :: LoggerService where
  "one_sender_state = the (run [Log record_m1] (Start NewLoggerService))"

text \<open>
  A worker standing at the select of \<^verbatim>\<open>processJob\<close>: one mock publisher, one record, the
  job taken by worker 0, its goroutine not yet run; a second record waits in the job
  channel.
\<close>

definition record_m2 :: LogData where
  "record_m2 = logMsg (Some Background) WarnLevel ''m2'' []"

definition waiting_schedule :: "action list" where
  "waiting_schedule =
     [Add ''P'' (Some mockPublisher), Log record_m1, Log record_m2, SendData 0, SendData 0,
      MainRecv, MainProcess, MainSendJob, MainRecv, MainProcess, MainSendJob, WorkerRange 0]"

definition waiting_state :: LoggerService where
  "waiting_state = the (run waiting_schedule (Start NewLoggerService))"

text \<open>
  A publisher that panics and a mock are registered; one record gives two jobs; worker 0
  takes the first and its goroutine calls the publisher.
\<close>

definition panic_schedule :: "action list" where
  "panic_schedule =
     [Add ''bad'' (Some panickingPublisher), Add ''P'' (Some mockPublisher),
      Log record_m1, SendData 0, MainRecv, MainProcess, MainSendJob, MainSendJob,
      WorkerRange 0, TaskSendMsg 0]"

text \<open>Two zap publishers receive one record whose context is nil.\<close>

definition record_nil_ctx :: LogData where
  "record_nil_ctx = logMsg None InfoLevel ''m1'' []"

definition shared_wait_schedule :: "action list" where
  "shared_wait_schedule =
     [Add ''Z1'' (Some (zap_publisher (NewZapLogger ''app'' ''dev''))),
      Add ''Z2'' (Some (zap_publisher (NewZapLogger ''app'' ''prod''))),
      Log record_nil_ctx, SendData 0, MainRecv, MainProcess, MainSendJob, MainSendJob,
      WorkerRange 0, WorkerRange 1]"

definition shared_record_schedule :: "action list" where
  "shared_record_schedule = shared_wait_schedule @ [TaskSendMsg 0, TaskSendMsg 1]"

definition shared_wait_state :: LoggerService where
  "shared_wait_state = the (run shared_wait_schedule (Start NewLoggerService))"

subsection \<open>What holds in every state of a started service\<close>

text \<open>The jobs the main worker still has to send, and the record it has received but not
  yet taken a snapshot for.\<close>

definition pending :: "main_pc \<Rightarrow> sendJob list" where
  "pending pc = (case pc of MSendJobs _ jobs \<Rightarrow> jobs | _ \<Rightarrow> [])"

definition in_process :: "main_pc \<Rightarrow> addr option list" where
  "in_process pc = (case pc of MProcess _ p \<Rightarrow> [p] | _ \<Rightarrow> [])"

definition jobs_of_snapshot :: "addr option \<times> registry \<Rightarrow> sendJob list" where
  "jobs_of_snapshot e = fst (snapshot_jobs (snd e) (fst e))"

fun exited :: "worker_pc \<Rightarrow> bool" where
  "exited WExited = True"
| "exited _ = False"

fun main_returned :: "main_pc \<Rightarrow> bool" where
  "main_returned MDeferClose = True"
| "main_returned MDeferDone = True"
| "main_returned MExited = True"
| "main_returned _ = False"

fun main_closed_jobs :: "main_pc \<Rightarrow> bool" where
  "main_closed_jobs MDeferDone = True"
| "main_closed_jobs MExited = True"
| "main_closed_jobs _ = False"

fun main_exited :: "main_pc \<Rightarrow> bool" where
  "main_exited MExited = True"
| "main_exited _ = False"

fun main_started :: "main_pc \<Rightarrow> bool" where
  "main_started MNotStarted = False"
| "main_started _ = True"

text \<open>
  Nothing is lost on the way: what was sent on the input channel is what the main worker
  has received followed by what the channel holds; what it has received is what it has
  taken a snapshot for followed by the record in its hands; the jobs created are those of
  the snapshots, and they are the jobs handed to goroutines of \<^verbatim>\<open>processJob\<close>, followed
  by those in the job channel, followed by those still to be sent.
\<close>

definition queues_inv :: "LoggerService \<Rightarrow> bool" where
  "queues_inv ls \<longleftrightarrow>
     accepted ls = received ls @ buf (inputCh ls)
   \<and> received ls = map fst (dispatched ls) @ in_process (mainWorker ls)
   \<and> created ls = concat (map jobs_of_snapshot (dispatched ls))
   \<and> created ls = map tjob (tasks ls) @ buf (jobCh ls) @ pending (mainWorker ls)"

text \<open>The order of the shutdown.\<close>

definition shutdown_inv :: "LoggerService \<Rightarrow> bool" where
  "shutdown_inv ls \<longleftrightarrow>
     main_started (mainWorker ls)
   \<and> is_closed (jobCh ls) = main_closed_jobs (mainWorker ls)
   \<and> (main_returned (mainWorker ls) \<longrightarrow> is_closed (inputCh ls) \<and> buf (inputCh ls) = [])
   \<and> ((\<exists>w \<in> set (workers ls). exited w) \<longrightarrow> is_closed (jobCh ls) \<and> buf (jobCh ls) = [])
   \<and> mainWg ls = (if main_exited (mainWorker ls) then 0 else 1)
   \<and> wg ls = length (filter (\<lambda>w. \<not> exited w) (workers ls))
   \<and> (stopCall ls = SNotCalled) = (\<not> is_closed (inputCh ls))
   \<and> (stopCall ls = SWaitWorkers \<or> stopCall ls = SReturned \<longrightarrow> main_exited (mainWorker ls))
   \<and> (stopCall ls = SReturned \<longrightarrow> (\<forall>w \<in> set (workers ls). exited w))"

text \<open>
  Every goroutine of \<^verbatim>\<open>processJob\<close> has closed its \<^verbatim>\<open>doneCh\<close>, or its worker took the timeout
  case, or its worker still stands at the select; and one that is past \<^verbatim>\<open>SendMsg\<close> has made
  its call.
\<close>

definition awaited :: "worker_pc list \<Rightarrow> nat \<Rightarrow> bool" where
  "awaited ws t \<longleftrightarrow> (\<exists>i < length ws. \<exists>job. ws ! i = WSelect job t)"

definition waits_inv :: "LoggerService \<Rightarrow> bool" where
  "waits_inv ls \<longleftrightarrow>
     (\<forall>t < length (tasks ls).
        tstate (tasks ls ! t) = TClosed \<or> t \<in> set (timed_out ls) \<or> awaited (workers ls) t)
   \<and> (\<forall>t < length (tasks ls). tstate (tasks ls ! t) \<noteq> TStart \<longrightarrow>
        (loggerID (tjob (tasks ls ! t)), logData (tjob (tasks ls ! t)))
          \<in> (\<lambda>c. (fst c, fst (snd c))) ` set (calls ls))"

text \<open>Together, with the number of workers that \<^verbatim>\<open>Start\<close> sets up.\<close>

definition started_inv :: "LoggerService \<Rightarrow> bool" where
  "started_inv s \<longleftrightarrow> queues_inv s \<and> shutdown_inv s \<and> waits_inv s
     \<and> length (workers s) = defaultNumWorkers"

text \<open>A whole life of the service: one record, one publisher, \<^verbatim>\<open>Stop\<close> called and returned.\<close>

definition full_schedule :: "action list" where
  "full_schedule =
     [Add ''P'' (Some mockPublisher), Log record_m1, SendData 0, StopClose,
      MainRecv, MainProcess, MainSendJob, MainRecv, MainDefer, MainDefer,
      WorkerRange 0, TaskSendMsg 0, TaskClose 0, WorkerDone 0,
      WorkerRange 0, WorkerRange 1, WorkerRange 2, WorkerRange 3,
      StopWaitMain, StopWaitWorkers]"

definition full_state :: LoggerService where
  "full_state = the (run full_schedule (Start NewLoggerService))"

subsection \<open>One publisher, three records\<close>

text \<open>
  One mock publisher \<open>P\<close> is registered; three records with the levels Info, Warn, Error and
  the messages m1, m2, m3 are built by \<^verbatim>\<open>logMsg\<close> and enter the input channel in this order.
\<close>

definition record_m3 :: LogData where
  "record_m3 = logMsg (Some Background) ErrorLevel ''m3'' []"

definition scenario_registry :: registry where
  "scenario_registry = [(''P'', Some mockPublisher)]"

definition scenario_schedule :: "action list" where
  "scenario_schedule =
     [Add ''P'' (Some mockPublisher), Log record_m1, Log record_m2, Log record_m3,
      SendData 0, SendData 0, SendData 0]"

definition scenario_state :: LoggerService where
  "scenario_state = the (run scenario_schedule (Start NewLoggerService))"

text \<open>
  A run from there: the main worker sends the three jobs in order, workers 0 and 1 take
  the first two, and the goroutine of worker 1 makes its call before that of worker 0.
\<close>

definition reorder_schedule :: "action list" where
  "reorder_schedule =
     [MainRecv, MainProcess, MainSendJob, MainRecv, MainProcess, MainSendJob,
      MainRecv, MainProcess, MainSendJob,
      WorkerRange 0, WorkerRange 1, TaskSendMsg 1, TaskSendMsg 0,
      TaskClose 1, TaskClose 0, WorkerDone 0, WorkerDone 1,
      WorkerRange 0, TaskSendMsg 2, TaskClose 2, WorkerDone 0]"

definition reordered_state :: LoggerService where
  "reordered_state = the (run reorder_schedule scenario_state)"

text \<open>The steps that neither register or remove a publisher nor start a new producer.\<close>

fun service_step :: "action \<Rightarrow> bool" where
  "service_step (Log d) = False"
| "service_step SendNil = False"
| "service_step (Add i l) = False"
| "service_step (Remove i) = False"
| "service_step a = True"

text \<open>Nothing is left to do for any record that was submitted.\<close>

definition all_delivered :: "LoggerService \<Rightarrow> bool" where
  "all_delivered ls \<longleftrightarrow>
     senders ls = [] \<and> buf (inputCh ls) = [] \<and> in_process (mainWorker ls) = []
   \<and> pending (mainWorker ls) = [] \<and> buf (jobCh ls) = []
   \<and> (\<forall>t \<in> set (tasks ls). tstate t \<noteq> TStart)"

definition call_key :: "string \<times> addr \<times> LogData \<Rightarrow> string \<times> addr" where
  "call_key c = (fst c, fst (snd c))"

definition job_key :: "sendJob \<Rightarrow> string \<times> addr" where
  "job_key j = (loggerID j, logData j)"

definition called :: "task \<Rightarrow> bool" where
  "called t \<longleftrightarrow> tstate t \<noteq> TStart"

definition scenario_inv :: "LoggerService \<Rightarrow> bool" where
  "scenario_inv ls \<longleftrightarrow>
     queues_inv ls \<and> loggers ls = scenario_registry \<and> senders ls = []
   \<and> accepted ls = [Some 0, Some 1, Some 2]
   \<and> heap ls = [record_m1, record_m2, record_m3]
   \<and> (\<forall>e \<in> set (dispatched ls). snd e = scenario_registry)
   \<and> mset (map call_key (calls ls)) = mset (map (job_key \<circ> tjob) (filter called (tasks ls)))
   \<and> (\<forall>c \<in> set (calls ls). snd (snd c) = [record_m1, record_m2, record_m3] ! fst (snd c))"

text \<open>The publish calls made, in the order they were made: publisher id, and level and
  message of the record as the publisher saw it.\<close>

definition call_view :: "string \<times> addr \<times> LogData \<Rightarrow> string \<times> LogLevel \<times> string" where
  "call_view c = (fst c, Level (snd (snd c)), Msg (snd (snd c)))"

definition delivered :: "LoggerService \<Rightarrow> (string \<times> LogLevel \<times> string) list" where
  "delivered ls = map call_view (calls ls)"

section \<open>Facts about the zap publisher\<close>

lemma payload_case_append: "payload_case acc f = acc @ payload_case [] f"
  by (simp add: payload_case_def)

lemma payload_loop_concat: "payload_loop acc fs = acc @ concat (map (payload_case []) fs)"
proof (induction fs arbitrary: acc)
  case Nil
  show ?case by simp
next
  case (Cons f fs)
  show ?case
    using Cons.IH [of "payload_case acc f"] payload_case_append [of acc f] by simp
qed

lemma getPayloadFields_concat:
  "getPayloadFields d = zap_Namespace ''payload'' # concat (map (payload_case []) (Fields d))"
  by (simp add: getPayloadFields_def payload_loop_concat)

lemma payload_case_subset:
  "f \<in> set (Fields d) \<Longrightarrow> set (payload_case [] f) \<subseteq> set (getPayloadFields d)"
  by (auto simp: getPayloadFields_concat)

lemma length_payload_case:
  "length (payload_case [] f) =
     (if Type f \<in> {FieldTypeString, FieldTypeInt, FieldTypeFloat, FieldTypeObject} then 1 else 0)"
  by (simp add: payload_case_def)

lemma length_concat_payload:
  "length (concat (map (payload_case []) fs)) =
     length (filter (\<lambda>f. Type f \<in> {FieldTypeString, FieldTypeInt, FieldTypeFloat, FieldTypeObject}) fs)"
  by (induction fs) (simp_all add: length_payload_case)

text \<open>
  C8. Every field of the record that carries one of the four type tags is published with its
  key and its value as they are, whatever the value is: the switch of \<^verbatim>\<open>getPayloadFields\<close>
  looks at the tag only and never at the value, so an integer 0, a float 0.0 and a string ""
  are published exactly as any other value, and the published list has one entry for the
  namespace and one for each tagged field.
\<close>

theorem zero_valued_fields_published:
  assumes "f \<in> set (Fields d)"
  shows "(Type f = FieldTypeInt \<longrightarrow> zap_Int (Key f) (Integer f) \<in> set (getPayloadFields d))
       \<and> (Type f = FieldTypeFloat \<longrightarrow> zap_Float64 (Key f) (Float f) \<in> set (getPayloadFields d))
       \<and> (Type f = FieldTypeString \<longrightarrow> zap_String (Key f) (String f) \<in> set (getPayloadFields d))
       \<and> (Type f = FieldTypeObject \<longrightarrow> zap_Any (Key f) (Object f) \<in> set (getPayloadFields d))
       \<and> length (getPayloadFields d) =
           Suc (length (filter (\<lambda>f. Type f \<in> {FieldTypeString, FieldTypeInt, FieldTypeFloat, FieldTypeObject})
                  (Fields d)))"
proof -
  have sub: "set (payload_case [] f) \<subseteq> set (getPayloadFields d)"
    using assms by (rule payload_case_subset)
  have len: "length (getPayloadFields d) =
      Suc (length (filter (\<lambda>f. Type f \<in> {FieldTypeString, FieldTypeInt, FieldTypeFloat, FieldTypeObject})
             (Fields d)))"
    by (simp add: getPayloadFields_concat length_concat_payload)
  have "Type f = FieldTypeInt \<longrightarrow> zap_Int (Key f) (Integer f) \<in> set (payload_case [] f)"
    by (simp add: payload_case_def)
  moreover have "Type f = FieldTypeFloat \<longrightarrow> zap_Float64 (Key f) (Float f) \<in> set (payload_case [] f)"
    by (simp add: payload_case_def field_type_defs)
  moreover have "Type f = FieldTypeString \<longrightarrow> zap_String (Key f) (String f) \<in> set (payload_case [] f)"
    by (simp add: payload_case_def field_type_defs)
  moreover have "Type f = FieldTypeObject \<longrightarrow> zap_Any (Key f) (Object f) \<in> set (payload_case [] f)"
    by (simp add: payload_case_def field_type_defs)
  ultimately show ?thesis using sub len by blast
qed

theorem zero_valued_fields_published_witness:
  "zap_Int ''int_field'' 0 \<in> set (getPayloadFields zero_values_record)
   \<and> zap_Float64 ''float_field'' 0 \<in> set (getPayloadFields zero_values_record)
   \<and> zap_String ''string_field'' [] \<in> set (getPayloadFields zero_values_record)
   \<and> length (getPayloadFields zero_values_record) = 4"
  using zero_valued_fields_published [of zero_int_field zero_values_record]
    zero_valued_fields_published [of zero_float_field zero_values_record]
    zero_valued_fields_published [of zero_string_field zero_values_record]
  by (simp add: zero_values_record_def zero_int_field_def zero_float_field_def
      zero_string_field_def field_type_defs)

text \<open>
  C10. \<^verbatim>\<open>SendMsg\<close> of the zap publisher calls a zap method exactly when the record's level is
  Error, Warn, Info, Debug or Fatal, and then the method of that level with the record's
  message; for DPanic, Panic and every other level no case of the switch applies, and the
  call makes no output at all (the function has no other output statement).
\<close>

theorem SendMsg_level_switch:
  "(snd (SendMsg l d) \<noteq> None) =
      (Level d \<in> {ErrorLevel, WarnLevel, InfoLevel, DebugLevel, FatalLevel})
   \<and> (Level d = DPanicLevel \<or> Level d = PanicLevel \<longrightarrow> snd (SendMsg l d) = None)
   \<and> (Level d = ErrorLevel \<longrightarrow> map_option zmethod (snd (SendMsg l d)) = Some zap_Error)
   \<and> (Level d = WarnLevel \<longrightarrow> map_option zmethod (snd (SendMsg l d)) = Some zap_Warn)
   \<and> (Level d = InfoLevel \<longrightarrow> map_option zmethod (snd (SendMsg l d)) = Some zap_Info)
   \<and> (Level d = DebugLevel \<longrightarrow> map_option zmethod (snd (SendMsg l d)) = Some zap_Debug)
   \<and> (Level d = FatalLevel \<longrightarrow> map_option zmethod (snd (SendMsg l d)) = Some zap_Fatal)"
  by (simp add: SendMsg_def Let_def level_switch_def level_defs)

theorem SendMsg_level_switch_witness:
  "snd (SendMsg (NewZapLogger ''app'' ''dev'') (zero_values_record\<lparr>Level := DPanicLevel\<rparr>)) = None
   \<and> snd (SendMsg (NewZapLogger ''app'' ''dev'') (zero_values_record\<lparr>Level := PanicLevel\<rparr>)) = None
   \<and> snd (SendMsg (NewZapLogger ''app'' ''dev'') (zero_values_record\<lparr>Level := 77\<rparr>)) = None
   \<and> map_option zmethod (snd (SendMsg (NewZapLogger ''app'' ''dev'') zero_values_record))
       = Some zap_Info"
  using SendMsg_level_switch [of "NewZapLogger ''app'' ''dev''" "zero_values_record\<lparr>Level := DPanicLevel\<rparr>"]
    SendMsg_level_switch [of "NewZapLogger ''app'' ''dev''" "zero_values_record\<lparr>Level := PanicLevel\<rparr>"]
    SendMsg_level_switch [of "NewZapLogger ''app'' ''dev''" "zero_values_record\<lparr>Level := 77\<rparr>"]
    SendMsg_level_switch [of "NewZapLogger ''app'' ''dev''" zero_values_record]
  by (simp add: zero_values_record_def level_defs)

section \<open>The snapshot of the registry\<close>

lemmas step_defs = step_def go_sendData_def go_sendNil_def sendData_def close_stopCh_def
  main_stop_case_def main_recv_def processLogData_def send_job_def main_defer_def runWorker_def
  task_SendMsg_def task_close_def processJob_done_def processJob_timeout_def Stop_close_def
  Stop_wait_main_def Stop_wait_workers_def AddLogger_def RemoveLogger_def
  chan_send_def chan_recv_def chan_close_def make_chan_def loop_pc_def

lemmas init_defs = Start_def NewLoggerService_def defaultInputBufferSize_def
  defaultJobBufferSize_def defaultNumWorkers_def

lemma job_of_sel [simp]:
  "loggerID (job_of p e) = fst e" "logger (job_of p e) = snd e" "logData (job_of p e) = p"
  by (simp_all add: job_of_def)

lemma range_loggers_eq:
  "range_loggers lgs p jobs out =
     (jobs @ map (job_of p) (publishers_of lgs), out @ map LoggerIsNil (nil_ids lgs))"
  by (induction lgs p jobs out rule: range_loggers.induct) (simp_all add: job_of_def)

lemma snapshot_jobs_eq:
  "lgs \<noteq> [] \<Longrightarrow> snapshot_jobs lgs (Some p) =
     (map (job_of p) (publishers_of lgs), map LoggerIsNil (nil_ids lgs))"
  by (simp add: snapshot_jobs_def range_loggers_eq)

lemma set_publishers_of: "set (publishers_of lgs) = {(i, l). (i, Some l) \<in> set lgs}"
  by (induction lgs rule: publishers_of.induct) auto

lemma set_nil_ids: "set (nil_ids lgs) = {i. (i, None) \<in> set lgs}"
  by (induction lgs rule: nil_ids.induct) auto

lemma keys_publishers_of: "set (map fst (publishers_of lgs)) \<subseteq> fst ` set lgs"
  by (induction lgs rule: publishers_of.induct) auto

lemma keys_nil_ids: "set (nil_ids lgs) \<subseteq> fst ` set lgs"
  by (induction lgs rule: nil_ids.induct) auto

lemma distinct_publishers_of:
  "distinct (map fst lgs) \<Longrightarrow> distinct (map fst (publishers_of lgs))"
proof (induction lgs rule: publishers_of.induct)
  case (3 i l rest)
  then show ?case using keys_publishers_of [of rest] by auto
qed simp_all

lemma distinct_nil_ids: "distinct (map fst lgs) \<Longrightarrow> distinct (nil_ids lgs)"
proof (induction lgs rule: nil_ids.induct)
  case (2 i rest)
  then show ?case using keys_nil_ids [of rest] by auto
qed simp_all

lemma nil_not_publisher:
  "distinct (map fst lgs) \<Longrightarrow> (i, None) \<in> set lgs \<Longrightarrow> i \<notin> fst ` set (publishers_of lgs)"
proof (induction lgs rule: publishers_of.induct)
  case (2 j rest)
  then show ?case using keys_publishers_of [of rest] by auto
next
  case (3 j l rest)
  then show ?case by (auto simp: image_iff)
qed simp

lemma filter_key_distinct:
  "distinct (map fst es) \<Longrightarrow> (i, l) \<in> set es \<Longrightarrow> filter (\<lambda>e. fst e = i) es = [(i, l)]"
proof (induction es)
  case Nil
  then show ?case by simp
next
  case (Cons e es)
  show ?case
  proof (cases "e = (i, l)")
    case True
    then have "\<forall>x \<in> set es. fst x \<noteq> i" using Cons.prems(1) by force
    then have "filter (\<lambda>e. fst e = i) es = []" by (simp add: filter_empty_conv)
    with True show ?thesis by simp
  next
    case False
    then have mem: "(i, l) \<in> set es" using Cons.prems(2) by simp
    then have "i \<in> fst ` set es" by force
    then have "fst e \<noteq> i" using Cons.prems(1) by auto
    then show ?thesis using Cons.IH mem Cons.prems(1) by simp
  qed
qed

lemma one_job_for_entry:
  assumes "distinct (map fst lgs)" and "(i, Some l) \<in> set lgs"
  shows "filter (\<lambda>j. loggerID j = i) (map (job_of p) (publishers_of lgs))
           = [\<lparr>loggerID = i, logger = l, logData = p\<rparr>]"
proof -
  have "(i, l) \<in> set (publishers_of lgs)" using assms(2) by (simp add: set_publishers_of)
  then have "filter (\<lambda>e. fst e = i) (publishers_of lgs) = [(i, l)]"
    using filter_key_distinct [OF distinct_publishers_of [OF assms(1)]] by blast
  moreover have "filter (\<lambda>j. loggerID j = i) (map (job_of p) (publishers_of lgs))
      = map (job_of p) (filter (\<lambda>e. fst e = i) (publishers_of lgs))"
    by (simp add: filter_map comp_def)
  ultimately show ?thesis by (simp add: job_of_def)
qed

lemma count_list_distinct: "distinct xs \<Longrightarrow> x \<in> set xs \<Longrightarrow> count_list xs x = 1"
  by (induction xs) (auto simp: count_list_0_iff)

lemma processLogData_step:
  assumes "halted ls = None" and "mainWorker ls = MProcess in_range (Some p)"
      and "loggers ls \<noteq> []"
  shows "step MainProcess ls =
           Some (ls\<lparr>stdout := stdout ls @ map LoggerIsNil (nil_ids (loggers ls)),
                    created := created ls @ map (job_of p) (publishers_of (loggers ls)),
                    dispatched := dispatched ls @ [(Some p, loggers ls)],
                    mainWorker := (case map (job_of p) (publishers_of (loggers ls)) of
                                     [] \<Rightarrow> loop_pc in_range
                                   | _ # _ \<Rightarrow> MSendJobs in_range
                                       (map (job_of p) (publishers_of (loggers ls))))\<rparr>)"
  using assms by (simp add: step_def processLogData_def snapshot_jobs_eq)

lemma dispatch_state_fields:
  "halted dispatch_state = None"
  "mainWorker dispatch_state = MProcess False (Some 0)"
  "loggers dispatch_state =
     [(''P'', Some mockPublisher), (''Q'', None),
      (''Z'', Some (zap_publisher (NewZapLogger ''app'' ''dev'')))]"
  "created dispatch_state = []" "stdout dispatch_state = []"
  unfolding dispatch_state_def registry_schedule_def
  by (simp_all add: step_defs init_defs Let_def)

text \<open>
  C1. When the main worker enters \<^verbatim>\<open>processLogData\<close> with a non-nil record while the registry
  is not empty, the one pass over the registry made under the read lock creates exactly
  the jobs of the registry's entries that hold a publisher, in the order of the pass, all
  for that record: for every such entry there is exactly one job with its id, and it
  carries that publisher. These are the jobs the final loop then sends. An id whose entry
  holds nil, or that is not in the registry at that moment, has no job among them, and
  registering a publisher afterwards creates no job and changes none.
\<close>

theorem one_job_per_registered_publisher:
  assumes "halted ls = None" and "mainWorker ls = MProcess in_range (Some p)"
      and "loggers ls \<noteq> []" and "distinct (map fst (loggers ls))"
  shows "\<exists>ls' new.
           step MainProcess ls = Some ls' \<and> created ls' = created ls @ new
           \<and> mainWorker ls' = (case new of [] \<Rightarrow> loop_pc in_range | _ # _ \<Rightarrow> MSendJobs in_range new)
           \<and> map (\<lambda>j. (loggerID j, logger j)) new = publishers_of (loggers ls)
           \<and> (\<forall>j \<in> set new. logData j = p)
           \<and> (\<forall>i l. (i, Some l) \<in> set (loggers ls) \<longrightarrow>
                 filter (\<lambda>j. loggerID j = i) new = [\<lparr>loggerID = i, logger = l, logData = p\<rparr>])
           \<and> (\<forall>i. (i, None) \<in> set (loggers ls) \<or> i \<notin> fst ` set (loggers ls) \<longrightarrow>
                 (\<forall>j \<in> set new. loggerID j \<noteq> i))
           \<and> (\<forall>i l. \<exists>ls''. step (Add i l) ls' = Some ls'' \<and> created ls'' = created ls'
                        \<and> mainWorker ls'' = mainWorker ls' \<and> jobCh ls'' = jobCh ls')"
proof -
  define new where "new = map (job_of p) (publishers_of (loggers ls))"
  define ls' where "ls' = ls\<lparr>stdout := stdout ls @ map LoggerIsNil (nil_ids (loggers ls)),
      created := created ls @ new,
      dispatched := dispatched ls @ [(Some p, loggers ls)],
      mainWorker := (case new of [] \<Rightarrow> loop_pc in_range | _ # _ \<Rightarrow> MSendJobs in_range new)\<rparr>"
  have st: "step MainProcess ls = Some ls'"
    unfolding ls'_def new_def using assms(1-3) by (rule processLogData_step)
  have cr: "created ls' = created ls @ new" by (simp add: ls'_def)
  have pc: "mainWorker ls' = (case new of [] \<Rightarrow> loop_pc in_range | _ # _ \<Rightarrow> MSendJobs in_range new)"
    by (simp add: ls'_def)
  have ent: "map (\<lambda>j. (loggerID j, logger j)) new = publishers_of (loggers ls)"
    by (simp add: new_def comp_def)
  have rcd: "\<forall>j \<in> set new. logData j = p" by (simp add: new_def)
  have one: "\<forall>i l. (i, Some l) \<in> set (loggers ls) \<longrightarrow>
      filter (\<lambda>j. loggerID j = i) new = [\<lparr>loggerID = i, logger = l, logData = p\<rparr>]"
    unfolding new_def using one_job_for_entry [OF assms(4)] by blast
  have ids: "loggerID ` set new = fst ` set (publishers_of (loggers ls))"
    by (simp add: new_def image_image)
  have none: "\<forall>i. (i, None) \<in> set (loggers ls) \<or> i \<notin> fst ` set (loggers ls) \<longrightarrow>
      (\<forall>j \<in> set new. loggerID j \<noteq> i)"
  proof (intro allI impI ballI)
    fix i j assume i: "(i, None) \<in> set (loggers ls) \<or> i \<notin> fst ` set (loggers ls)" and j: "j \<in> set new"
    have "i \<notin> fst ` set (publishers_of (loggers ls))"
      using i nil_not_publisher [OF assms(4)] keys_publishers_of [of "loggers ls"] by auto
    then show "loggerID j \<noteq> i" using ids j by blast
  qed
  have hl: "halted ls' = None" using assms(1) by (simp add: ls'_def)
  have late: "\<forall>i l. \<exists>ls''. step (Add i l) ls' = Some ls'' \<and> created ls'' = created ls'
             \<and> mainWorker ls'' = mainWorker ls' \<and> jobCh ls'' = jobCh ls'"
    using hl by (simp add: step_def AddLogger_def)
  show ?thesis
    apply (rule exI [of _ ls'], rule exI [of _ new])
    using st cr pc ent rcd one none late by (intro conjI) assumption+
qed


theorem one_job_per_registered_publisher_witness:
  "halted dispatch_state = None \<and> mainWorker dispatch_state = MProcess False (Some 0)
   \<and> loggers dispatch_state \<noteq> [] \<and> distinct (map fst (loggers dispatch_state))
   \<and> (\<exists>ls' new.
        step MainProcess dispatch_state = Some ls' \<and> created ls' = created dispatch_state @ new
        \<and> map loggerID new = [''P'', ''Z'']
        \<and> filter (\<lambda>j. loggerID j = ''P'') new
             = [\<lparr>loggerID = ''P'', logger = mockPublisher, logData = 0\<rparr>]
        \<and> (\<forall>j \<in> set new. loggerID j \<noteq> ''Q'' \<and> loggerID j \<noteq> ''late''))"
proof -
  have h1: "halted dispatch_state = None" by (simp add: dispatch_state_fields)
  have h2: "mainWorker dispatch_state = MProcess False (Some 0)" by (simp add: dispatch_state_fields)
  have h3: "loggers dispatch_state \<noteq> []" by (simp add: dispatch_state_fields)
  have h4: "distinct (map fst (loggers dispatch_state))" by (simp add: dispatch_state_fields)
  obtain ls' new where r:
    "step MainProcess dispatch_state = Some ls'" "created ls' = created dispatch_state @ new"
    "map (\<lambda>j. (loggerID j, logger j)) new = publishers_of (loggers dispatch_state)"
    "\<forall>i l. (i, Some l) \<in> set (loggers dispatch_state) \<longrightarrow>
       filter (\<lambda>j. loggerID j = i) new = [\<lparr>loggerID = i, logger = l, logData = 0\<rparr>]"
    "\<forall>i. (i, None) \<in> set (loggers dispatch_state) \<or> i \<notin> fst ` set (loggers dispatch_state) \<longrightarrow>
       (\<forall>j \<in> set new. loggerID j \<noteq> i)"
    using one_job_per_registered_publisher [OF h1 h2 h3 h4] by (elim exE conjE) rule
  have "map fst (map (\<lambda>j. (loggerID j, logger j)) new) = [''P'', ''Z'']"
    unfolding r(3) by (simp add: dispatch_state_fields)
  then have ids: "map loggerID new = [''P'', ''Z'']" by (simp add: comp_def)
  have p: "filter (\<lambda>j. loggerID j = ''P'') new
      = [\<lparr>loggerID = ''P'', logger = mockPublisher, logData = 0\<rparr>]"
    using r(4) by (simp add: dispatch_state_fields)
  have q: "\<forall>j \<in> set new. loggerID j \<noteq> ''Q''"
    using r(5) [rule_format, of "''Q''"] by (simp add: dispatch_state_fields)
  have l: "\<forall>j \<in> set new. loggerID j \<noteq> ''late''"
    using r(5) [rule_format, of "''late''"] by (simp add: dispatch_state_fields)
  show ?thesis
    apply (intro conjI h1 h2 h3 h4)
    apply (rule exI [of _ ls'], rule exI [of _ new])
    using r(1,2) ids p q l by auto
qed

lemma count_list_LoggerIsNil: "count_list (map LoggerIsNil xs) (LoggerIsNil i) = count_list xs i"
  by (induction xs) auto

text \<open>
  C9. \<^verbatim>\<open>AddLogger\<close> stores a nil publisher like any other value: the call succeeds and the
  registry then holds the id with the nil value. When the main worker later takes its
  snapshot for a record, a nil entry prints its one line, no job is created for its id, and
  the step ends neither in a panic nor in an exit. A job is only ever built from an entry
  that holds a publisher, so no worker calls \<^verbatim>\<open>SendMsg\<close> on nil.
\<close>

theorem nil_publisher_stored_then_skipped:
  "(halted ls0 = None \<longrightarrow>
      step (Add i None) ls0 = Some (AddLogger i None ls0)
      \<and> map_of (loggers (AddLogger i None ls0)) i = Some None
      \<and> halted (AddLogger i None ls0) = None)
   \<and> (halted ls = None \<and> mainWorker ls = MProcess in_range (Some p)
        \<and> (i, None) \<in> set (loggers ls) \<and> distinct (map fst (loggers ls)) \<longrightarrow>
      (\<exists>ls' new out.
          step MainProcess ls = Some ls' \<and> halted ls' = None
          \<and> created ls' = created ls @ new \<and> (\<forall>j \<in> set new. loggerID j \<noteq> i)
          \<and> stdout ls' = stdout ls @ out \<and> count_list out (LoggerIsNil i) = 1))"
proof (intro conjI impI)
  assume "halted ls0 = None"
  then show "step (Add i None) ls0 = Some (AddLogger i None ls0)" by (simp add: step_def)
next
  show "map_of (loggers (AddLogger i None ls0)) i = Some None"
    by (simp add: AddLogger_def update_conv')
next
  assume "halted ls0 = None"
  then show "halted (AddLogger i None ls0) = None" by (simp add: AddLogger_def)
next
  assume a: "halted ls = None \<and> mainWorker ls = MProcess in_range (Some p)
        \<and> (i, None) \<in> set (loggers ls) \<and> distinct (map fst (loggers ls))"
  then have h1: "halted ls = None" and h2: "mainWorker ls = MProcess in_range (Some p)"
    and h3: "(i, None) \<in> set (loggers ls)" and h4: "distinct (map fst (loggers ls))"
    by simp_all
  have ne: "loggers ls \<noteq> []" using h3 by auto
  define new where "new = map (job_of p) (publishers_of (loggers ls))"
  define out where "out = map LoggerIsNil (nil_ids (loggers ls))"
  define ls' where "ls' = ls\<lparr>stdout := stdout ls @ out, created := created ls @ new,
      dispatched := dispatched ls @ [(Some p, loggers ls)],
      mainWorker := (case new of [] \<Rightarrow> loop_pc in_range | _ # _ \<Rightarrow> MSendJobs in_range new)\<rparr>"
  have st: "step MainProcess ls = Some ls'"
    unfolding ls'_def new_def out_def using h1 h2 ne by (rule processLogData_step)
  have hl: "halted ls' = None" using h1 by (simp add: ls'_def)
  have cr: "created ls' = created ls @ new" by (simp add: ls'_def)
  have so: "stdout ls' = stdout ls @ out" by (simp add: ls'_def)
  have "i \<notin> fst ` set (publishers_of (loggers ls))" using nil_not_publisher [OF h4 h3] .
  then have nj: "\<forall>j \<in> set new. loggerID j \<noteq> i" by (auto simp: new_def)
  have "i \<in> set (nil_ids (loggers ls))" using h3 by (simp add: set_nil_ids)
  then have "count_list (nil_ids (loggers ls)) i = 1"
    using count_list_distinct [OF distinct_nil_ids [OF h4]] by blast
  moreover have "count_list out (LoggerIsNil i) = count_list (nil_ids (loggers ls)) i"
    unfolding out_def by (rule count_list_LoggerIsNil)
  ultimately have cnt: "count_list out (LoggerIsNil i) = 1" by simp
  show "\<exists>ls' new out.
          step MainProcess ls = Some ls' \<and> halted ls' = None
          \<and> created ls' = created ls @ new \<and> (\<forall>j \<in> set new. loggerID j \<noteq> i)
          \<and> stdout ls' = stdout ls @ out \<and> count_list out (LoggerIsNil i) = 1"
    apply (rule exI [of _ ls'], rule exI [of _ new], rule exI [of _ out])
    using st hl cr nj so cnt by (intro conjI) assumption+
qed

theorem nil_publisher_stored_then_skipped_witness:
  "step (Add ''Q'' None) (Start NewLoggerService)
      = Some (AddLogger ''Q'' None (Start NewLoggerService))
   \<and> map_of (loggers (AddLogger ''Q'' None (Start NewLoggerService))) ''Q'' = Some None
   \<and> (\<exists>ls' new out.
          step MainProcess dispatch_state = Some ls' \<and> halted ls' = None
          \<and> created ls' = created dispatch_state @ new \<and> (\<forall>j \<in> set new. loggerID j \<noteq> ''Q'')
          \<and> stdout ls' = stdout dispatch_state @ out \<and> count_list out (LoggerIsNil ''Q'') = 1)"
proof -
  have h0: "halted (Start NewLoggerService) = None" by (simp add: init_defs)
  have h: "halted dispatch_state = None \<and> mainWorker dispatch_state = MProcess False (Some 0)
        \<and> (''Q'', None) \<in> set (loggers dispatch_state)
        \<and> distinct (map fst (loggers dispatch_state))"
    by (simp add: dispatch_state_fields)
  have t: "(halted (Start NewLoggerService) = None \<longrightarrow>
      step (Add ''Q'' None) (Start NewLoggerService) = Some (AddLogger ''Q'' None (Start NewLoggerService))
      \<and> map_of (loggers (AddLogger ''Q'' None (Start NewLoggerService))) ''Q'' = Some None
      \<and> halted (AddLogger ''Q'' None (Start NewLoggerService)) = None)
   \<and> (halted dispatch_state = None \<and> mainWorker dispatch_state = MProcess False (Some 0)
        \<and> (''Q'', None) \<in> set (loggers dispatch_state) \<and> distinct (map fst (loggers dispatch_state)) \<longrightarrow>
      (\<exists>ls' new out.
          step MainProcess dispatch_state = Some ls' \<and> halted ls' = None
          \<and> created ls' = created dispatch_state @ new \<and> (\<forall>j \<in> set new. loggerID j \<noteq> ''Q'')
          \<and> stdout ls' = stdout dispatch_state @ out \<and> count_list out (LoggerIsNil ''Q'') = 1))"
    by (rule nil_publisher_stored_then_skipped [of "Start NewLoggerService" "''Q''" dispatch_state False 0])
  from t have a: "halted (Start NewLoggerService) = None \<longrightarrow>
      step (Add ''Q'' None) (Start NewLoggerService) = Some (AddLogger ''Q'' None (Start NewLoggerService))
      \<and> map_of (loggers (AddLogger ''Q'' None (Start NewLoggerService))) ''Q'' = Some None
      \<and> halted (AddLogger ''Q'' None (Start NewLoggerService)) = None"
    by (rule conjunct1)
  from t have b: "halted dispatch_state = None \<and> mainWorker dispatch_state = MProcess False (Some 0)
        \<and> (''Q'', None) \<in> set (loggers dispatch_state) \<and> distinct (map fst (loggers dispatch_state)) \<longrightarrow>
      (\<exists>ls' new out.
          step MainProcess dispatch_state = Some ls' \<and> halted ls' = None
          \<and> created ls' = created dispatch_state @ new \<and> (\<forall>j \<in> set new. loggerID j \<noteq> ''Q'')
          \<and> stdout ls' = stdout dispatch_state @ out \<and> count_list out (LoggerIsNil ''Q'') = 1)"
    by (rule conjunct2)
  from a h0 have x: "step (Add ''Q'' None) (Start NewLoggerService) = Some (AddLogger ''Q'' None (Start NewLoggerService))
      \<and> map_of (loggers (AddLogger ''Q'' None (Start NewLoggerService))) ''Q'' = Some None
      \<and> halted (AddLogger ''Q'' None (Start NewLoggerService)) = None"
    by (rule mp)
  from b h have e: "\<exists>ls' new out.
          step MainProcess dispatch_state = Some ls' \<and> halted ls' = None
          \<and> created ls' = created dispatch_state @ new \<and> (\<forall>j \<in> set new. loggerID j \<noteq> ''Q'')
          \<and> stdout ls' = stdout dispatch_state @ out \<and> count_list out (LoggerIsNil ''Q'') = 1"
    by (rule mp)
  from x have x1: "step (Add ''Q'' None) (Start NewLoggerService) = Some (AddLogger ''Q'' None (Start NewLoggerService))"
    and x2: "map_of (loggers (AddLogger ''Q'' None (Start NewLoggerService))) ''Q'' = Some None"
    by (rule conjunct1, rule conjunct2 [THEN conjunct1])
  show ?thesis using x1 x2 e by (intro conjI)
qed

section \<open>Producers and the input channel\<close>

text \<open>
  C5, as stated, fails: a producer goroutine whose send comes after \<^verbatim>\<open>Stop\<close> has closed the
  input channel panics, which ends the process; the record is not enqueued and nothing
  tells the producer so.
\<close>

theorem send_after_Stop_panics:
  "map_option halted (run late_send_schedule (Start NewLoggerService)) = Some (Some Panic)
   \<and> map_option accepted (run late_send_schedule (Start NewLoggerService)) = Some []"
  by (simp add: late_send_schedule_def step_defs init_defs Let_def)

text \<open>
  C5, amended. While the input channel is open, the send of \<^verbatim>\<open>sendData\<close> has two outcomes:
  with room in the channel the pointer is appended to the queue and the goroutine is done;
  with the channel full the send blocks. \<^verbatim>\<open>sendData\<close> returns nothing, and no outcome
  reports a record as not accepted.
\<close>

theorem submission_while_intake_open:
  assumes "halted ls = None" and "k < length (senders ls)" and "\<not> is_closed (inputCh ls)"
  shows "(length (buf (inputCh ls)) < cap (inputCh ls) \<longrightarrow>
            step (SendData k) ls =
              Some (ls\<lparr>inputCh := (inputCh ls)\<lparr>buf := buf (inputCh ls) @ [senders ls ! k]\<rparr>,
                       senders := take k (senders ls) @ drop (Suc k) (senders ls),
                       accepted := accepted ls @ [senders ls ! k]\<rparr>))
       \<and> (cap (inputCh ls) \<le> length (buf (inputCh ls)) \<longrightarrow> step (SendData k) ls = None)"
  using assms by (simp add: step_def sendData_def chan_send_def)

lemma full_intake_fields:
  "(case run full_intake_schedule (Start NewLoggerService) of
      None \<Rightarrow> False
    | Some s \<Rightarrow> halted s = None \<and> senders s = [None] \<and> \<not> is_closed (inputCh s)
        \<and> length (buf (inputCh s)) = 100 \<and> cap (inputCh s) = 100)"
  unfolding full_intake_schedule_def by code_simp

lemma full_intake_state_fields:
  "halted full_intake_state = None" "senders full_intake_state = [None]"
  "\<not> is_closed (inputCh full_intake_state)"
  "length (buf (inputCh full_intake_state)) = 100" "cap (inputCh full_intake_state) = 100"
  using full_intake_fields unfolding full_intake_state_def
  by (auto split: option.splits)

lemma one_sender_fields:
  "halted one_sender_state = None" "senders one_sender_state = [Some 0]"
  "\<not> is_closed (inputCh one_sender_state)"
  "buf (inputCh one_sender_state) = []" "cap (inputCh one_sender_state) = 100"
  "accepted one_sender_state = []"
  unfolding one_sender_state_def
  by (simp_all add: step_defs init_defs)

theorem submission_while_intake_open_witness:
  "(\<exists>ls'. step (SendData 0) one_sender_state = Some ls' \<and> buf (inputCh ls') = [Some 0]
        \<and> senders ls' = [] \<and> accepted ls' = [Some 0])
   \<and> step (SendData 0) full_intake_state = None"
proof -
  have a: "halted one_sender_state = None" "0 < length (senders one_sender_state)"
    "\<not> is_closed (inputCh one_sender_state)"
    "length (buf (inputCh one_sender_state)) < cap (inputCh one_sender_state)"
    by (simp_all add: one_sender_fields)
  have b: "halted full_intake_state = None" "0 < length (senders full_intake_state)"
    "\<not> is_closed (inputCh full_intake_state)"
    "cap (inputCh full_intake_state) \<le> length (buf (inputCh full_intake_state))"
    by (simp_all add: full_intake_state_fields)
  have "step (SendData 0) one_sender_state =
      Some (one_sender_state\<lparr>inputCh := (inputCh one_sender_state)
                \<lparr>buf := buf (inputCh one_sender_state) @ [senders one_sender_state ! 0]\<rparr>,
              senders := take 0 (senders one_sender_state) @ drop (Suc 0) (senders one_sender_state),
              accepted := accepted one_sender_state @ [senders one_sender_state ! 0]\<rparr>)"
    using submission_while_intake_open [OF a(1) a(2) a(3)] a(4) by blast
  then have 1: "\<exists>ls'. step (SendData 0) one_sender_state = Some ls' \<and> buf (inputCh ls') = [Some 0]
        \<and> senders ls' = [] \<and> accepted ls' = [Some 0]"
    by (simp add: one_sender_fields)
  have 2: "step (SendData 0) full_intake_state = None"
    using submission_while_intake_open [OF b(1) b(2) b(3)] b(4) by blast
  show ?thesis using 1 2 by (rule conjI)
qed

section \<open>Workers and publish calls\<close>

lemma waiting_state_fields:
  "halted waiting_state = None"
  "workers waiting_state =
     [WSelect \<lparr>loggerID = ''P'', logger = mockPublisher, logData = 0\<rparr> 0, WRange, WRange, WRange]"
  "tasks waiting_state =
     [\<lparr>tjob = \<lparr>loggerID = ''P'', logger = mockPublisher, logData = 0\<rparr>, tstate = TStart\<rparr>]"
  "heap waiting_state = [record_m1, record_m2]"
  "buf (jobCh waiting_state) = [\<lparr>loggerID = ''P'', logger = mockPublisher, logData = 1\<rparr>]"
  "stdout waiting_state = []" "calls waiting_state = []"
  unfolding waiting_state_def waiting_schedule_def
  by (simp_all add: step_defs init_defs Let_def snapshot_jobs_def eval_nat_numeral)

text \<open>
  C2. When the timeout case of the select in \<^verbatim>\<open>processJob\<close> is taken (the timer of
  \<^verbatim>\<open>sendTimeout\<close> = 100 ms has fired before the worker saw \<^verbatim>\<open>doneCh\<close> closed), the worker
  prints exactly one line, which names the job's publisher id, the timeout and the
  record's message, and stands at its \<^verbatim>\<open>range\<close> again: its next step takes the next job
  of the job channel. The goroutine that makes the publish call is left as it is; if it
  had not made the call yet, it still makes it afterwards.
\<close>

theorem timeout_abandons_only_the_wait:
  assumes "halted ls = None" and "i < length (workers ls)" and "workers ls ! i = WSelect job t"
  shows "\<exists>ls'. step (WorkerTimeout i) ls = Some ls'
           \<and> stdout ls' = stdout ls @
                 [FailedToSend (loggerID job) sendTimeout (Msg (heap ls ! logData job))]
           \<and> sendTimeout = 100
           \<and> workers ls' = (workers ls)[i := WRange] \<and> halted ls' = None
           \<and> tasks ls' = tasks ls \<and> heap ls' = heap ls \<and> calls ls' = calls ls
           \<and> jobCh ls' = jobCh ls
           \<and> (\<forall>job' rest. buf (jobCh ls) = job' # rest \<longrightarrow>
                 (\<exists>ls''. step (WorkerRange i) ls' = Some ls''
                     \<and> workers ls'' ! i = WSelect job' (length (tasks ls))))
           \<and> (t < length (tasks ls) \<and> tstate (tasks ls ! t) = TStart \<longrightarrow>
                 (\<exists>ls''. step (TaskSendMsg t) ls' = Some ls''
                     \<and> calls ls'' = calls ls @
                          [(loggerID (tjob (tasks ls ! t)), logData (tjob (tasks ls ! t)),
                            heap ls ! logData (tjob (tasks ls ! t)))]))"
proof -
  define ls' where "ls' = ls\<lparr>stdout := stdout ls @
        [FailedToSend (loggerID job) sendTimeout (Msg (heap ls ! logData job))],
      workers := (workers ls)[i := WRange],
      timed_out := timed_out ls @ [t]\<rparr>"
  have st: "step (WorkerTimeout i) ls = Some ls'"
    using assms by (simp add: step_def processJob_timeout_def ls'_def)
  have nxt: "\<forall>job' rest. buf (jobCh ls) = job' # rest \<longrightarrow>
      (\<exists>ls''. step (WorkerRange i) ls' = Some ls''
          \<and> workers ls'' ! i = WSelect job' (length (tasks ls)))"
    using assms by (simp add: step_def runWorker_def chan_recv_def ls'_def)
  have bg: "t < length (tasks ls) \<and> tstate (tasks ls ! t) = TStart \<longrightarrow>
      (\<exists>ls''. step (TaskSendMsg t) ls' = Some ls''
          \<and> calls ls'' = calls ls @
               [(loggerID (tjob (tasks ls ! t)), logData (tjob (tasks ls ! t)),
                 heap ls ! logData (tjob (tasks ls ! t)))])"
    using assms(1) by (auto simp: step_def task_SendMsg_def ls'_def Let_def split: send_result.splits)
  show ?thesis
    apply (rule exI [of _ ls'])
    using st nxt bg assms(1) by (simp add: ls'_def sendTimeout_def)
qed

theorem timeout_abandons_only_the_wait_witness:
  "\<exists>ls'. step (WorkerTimeout 0) waiting_state = Some ls'
      \<and> stdout ls' = [FailedToSend ''P'' 100 ''m1'']
      \<and> workers ls' ! 0 = WRange
      \<and> tasks ls' = tasks waiting_state
      \<and> (\<exists>ls''. step (WorkerRange 0) ls' = Some ls''
             \<and> workers ls'' ! 0 = WSelect \<lparr>loggerID = ''P'', logger = mockPublisher, logData = 1\<rparr> 1)
      \<and> (\<exists>ls''. step (TaskSendMsg 0) ls' = Some ls'' \<and> calls ls'' = [(''P'', 0, record_m1)])"
proof -
  have h: "halted waiting_state = None" "0 < length (workers waiting_state)"
    "workers waiting_state ! 0 = WSelect \<lparr>loggerID = ''P'', logger = mockPublisher, logData = 0\<rparr> 0"
    by (simp_all add: waiting_state_fields)
  from timeout_abandons_only_the_wait [OF h]
  obtain ls' where r: "step (WorkerTimeout 0) waiting_state = Some ls'"
    "stdout ls' = stdout waiting_state @
       [FailedToSend (loggerID \<lparr>loggerID = ''P'', logger = mockPublisher, logData = 0\<rparr>) sendTimeout
          (Msg (heap waiting_state ! logData \<lparr>loggerID = ''P'', logger = mockPublisher, logData = 0\<rparr>))]"
    "workers ls' = (workers waiting_state)[0 := WRange]"
    "tasks ls' = tasks waiting_state"
    "\<forall>job' rest. buf (jobCh waiting_state) = job' # rest \<longrightarrow>
       (\<exists>ls''. step (WorkerRange 0) ls' = Some ls''
           \<and> workers ls'' ! 0 = WSelect job' (length (tasks waiting_state)))"
    "0 < length (tasks waiting_state) \<and> tstate (tasks waiting_state ! 0) = TStart \<longrightarrow>
       (\<exists>ls''. step (TaskSendMsg 0) ls' = Some ls''
           \<and> calls ls'' = calls waiting_state @
                [(loggerID (tjob (tasks waiting_state ! 0)), logData (tjob (tasks waiting_state ! 0)),
                  heap waiting_state ! logData (tjob (tasks waiting_state ! 0)))])"
    by (elim exE conjE) rule
  have 1: "stdout ls' = [FailedToSend ''P'' 100 ''m1'']"
    using r(2) by (simp add: waiting_state_fields sendTimeout_def record_m1_def logMsg_def)
  have 2: "workers ls' ! 0 = WRange" using r(3) by (simp add: waiting_state_fields)
  have 3: "\<exists>ls''. step (WorkerRange 0) ls' = Some ls''
      \<and> workers ls'' ! 0 = WSelect \<lparr>loggerID = ''P'', logger = mockPublisher, logData = 1\<rparr> 1"
    using r(5) by (simp add: waiting_state_fields)
  have 4: "\<exists>ls''. step (TaskSendMsg 0) ls' = Some ls'' \<and> calls ls'' = [(''P'', 0, record_m1)]"
    using r(6) by (simp add: waiting_state_fields)
  show ?thesis
    apply (rule exI [of _ ls'])
    using r(1) 1 2 r(4) 3 4 by (intro conjI) assumption+
qed

text \<open>
  C4, as stated, fails: nothing recovers a panic of \<^verbatim>\<open>SendMsg\<close>. With a publisher that panics
  the process ends at the call: the job of the other publisher stays in the job channel,
  and neither the worker that waited nor any other worker takes a further step.
\<close>

theorem publish_panic_ends_process:
  "map_option halted (run panic_schedule (Start NewLoggerService)) = Some (Some Panic)
   \<and> map_option (map loggerID \<circ> buf \<circ> jobCh) (run panic_schedule (Start NewLoggerService))
        = Some [''P'']
   \<and> run (panic_schedule @ [WorkerTimeout 0]) (Start NewLoggerService) = None
   \<and> run (panic_schedule @ [WorkerRange 1]) (Start NewLoggerService) = None"
  by (simp add: panic_schedule_def step_defs init_defs Let_def snapshot_jobs_def
      panickingPublisher_def eval_nat_numeral)

text \<open>
  C4, amended. The worker never looks at what a publish call did. For a call that returns,
  the goroutine makes the call once (it is not made again), closes \<^verbatim>\<open>doneCh\<close>, and the
  worker goes back to its \<^verbatim>\<open>range\<close> and takes the next job of the job channel; the queues,
  the producers, the main worker, the other workers and the printed lines are as before.
\<close>

theorem returning_publish_call_keeps_worker:
  assumes "halted ls = None" and "i < length (workers ls)" and "workers ls ! i = WSelect job t"
      and "t < length (tasks ls)" and "tjob (tasks ls ! t) = job"
      and "tstate (tasks ls ! t) = TStart"
      and "logger job (heap ls ! logData job) = Returns d'"
  shows "\<exists>ls'. run [TaskSendMsg t, TaskClose t, WorkerDone i] ls = Some ls'
           \<and> halted ls' = None \<and> workers ls' = (workers ls)[i := WRange]
           \<and> calls ls' = calls ls @ [(loggerID job, logData job, heap ls ! logData job)]
           \<and> step (TaskSendMsg t) ls' = None
           \<and> jobCh ls' = jobCh ls \<and> inputCh ls' = inputCh ls \<and> senders ls' = senders ls
           \<and> mainWorker ls' = mainWorker ls \<and> stdout ls' = stdout ls
           \<and> (\<forall>job' rest. buf (jobCh ls) = job' # rest \<longrightarrow>
                 (\<exists>ls''. step (WorkerRange i) ls' = Some ls''
                     \<and> workers ls'' ! i = WSelect job' (length (tasks ls))))"
proof -
  define ls1 where "ls1 = ls\<lparr>calls := calls ls @ [(loggerID job, logData job, heap ls ! logData job)],
      heap := (heap ls)[logData job := d'],
      tasks := (tasks ls)[t := (tasks ls ! t)\<lparr>tstate := TSent\<rparr>]\<rparr>"
  define ls2 where "ls2 = ls1\<lparr>tasks := (tasks ls1)[t := (tasks ls1 ! t)\<lparr>tstate := TClosed\<rparr>]\<rparr>"
  define ls3 where "ls3 = ls2\<lparr>workers := (workers ls2)[i := WRange]\<rparr>"
  have s1: "step (TaskSendMsg t) ls = Some ls1"
    using assms by (simp add: step_def task_SendMsg_def Let_def ls1_def)
  have s2: "step (TaskClose t) ls1 = Some ls2"
    using assms by (simp add: step_def task_close_def ls1_def ls2_def)
  have s3: "step (WorkerDone i) ls2 = Some ls3"
    using assms by (simp add: step_def processJob_done_def ls1_def ls2_def ls3_def)
  have r: "run [TaskSendMsg t, TaskClose t, WorkerDone i] ls = Some ls3"
    using s1 s2 s3 by simp
  have again: "step (TaskSendMsg t) ls3 = None"
    using assms by (simp add: step_def task_SendMsg_def ls1_def ls2_def ls3_def)
  have nxt: "\<forall>job' rest. buf (jobCh ls) = job' # rest \<longrightarrow>
      (\<exists>ls''. step (WorkerRange i) ls3 = Some ls''
          \<and> workers ls'' ! i = WSelect job' (length (tasks ls)))"
    using assms by (simp add: step_def runWorker_def chan_recv_def ls1_def ls2_def ls3_def)
  show ?thesis
    apply (rule exI [of _ ls3])
    using r again nxt assms(1) by (simp add: ls1_def ls2_def ls3_def)
qed

theorem returning_publish_call_keeps_worker_witness:
  "\<exists>ls'. run [TaskSendMsg 0, TaskClose 0, WorkerDone 0] waiting_state = Some ls'
      \<and> halted ls' = None \<and> workers ls' ! 0 = WRange
      \<and> calls ls' = [(''P'', 0, record_m1)]
      \<and> step (TaskSendMsg 0) ls' = None
      \<and> (\<exists>ls''. step (WorkerRange 0) ls' = Some ls''
             \<and> workers ls'' ! 0 = WSelect \<lparr>loggerID = ''P'', logger = mockPublisher, logData = 1\<rparr> 1)"
proof -
  let ?job = "\<lparr>loggerID = ''P'', logger = mockPublisher, logData = 0\<rparr>"
  have h: "halted waiting_state = None" "0 < length (workers waiting_state)"
    "workers waiting_state ! 0 = WSelect ?job 0"
    "0 < length (tasks waiting_state)" "tjob (tasks waiting_state ! 0) = ?job"
    "tstate (tasks waiting_state ! 0) = TStart"
    "logger ?job (heap waiting_state ! logData ?job) = Returns record_m1"
    by (simp_all add: waiting_state_fields mockPublisher_def)
  from returning_publish_call_keeps_worker [OF h]
  obtain ls' where r: "run [TaskSendMsg 0, TaskClose 0, WorkerDone 0] waiting_state = Some ls'"
    "halted ls' = None" "workers ls' = (workers waiting_state)[0 := WRange]"
    "calls ls' = calls waiting_state @ [(loggerID ?job, logData ?job, heap waiting_state ! logData ?job)]"
    "step (TaskSendMsg 0) ls' = None"
    "\<forall>job' rest. buf (jobCh waiting_state) = job' # rest \<longrightarrow>
       (\<exists>ls''. step (WorkerRange 0) ls' = Some ls''
           \<and> workers ls'' ! 0 = WSelect job' (length (tasks waiting_state)))"
    by (elim exE conjE) rule
  have 1: "workers ls' ! 0 = WRange" using r(3) by (simp add: waiting_state_fields)
  have 2: "calls ls' = [(''P'', 0, record_m1)]" using r(4) by (simp add: waiting_state_fields)
  have 3: "\<exists>ls''. step (WorkerRange 0) ls' = Some ls''
      \<and> workers ls'' ! 0 = WSelect \<lparr>loggerID = ''P'', logger = mockPublisher, logData = 1\<rparr> 1"
    using r(6) by (simp add: waiting_state_fields)
  show ?thesis
    apply (rule exI [of _ ls'])
    using r(1,2) 1 2 r(5) 3 by (intro conjI) assumption+
qed

section \<open>The shared record\<close>

lemma SendMsg_record:
  "fst (SendMsg l d) = (if Ctx d = None then d\<lparr>Ctx := Some Background\<rparr> else d)"
  by (simp add: SendMsg_def Let_def)

lemma zap_publisher_result:
  "zap_publisher l d = Returns d' \<Longrightarrow>
     d' = (if Ctx d = None then d\<lparr>Ctx := Some Background\<rparr> else d)"
  using SendMsg_record [of l d]
  by (auto simp: zap_publisher_def split: prod.splits option.splits if_splits)

lemma heap_frame:
  assumes "step a ls = Some ls'" and "\<forall>t. a \<noteq> TaskSendMsg t" and "p < length (heap ls)"
  shows "heap ls' ! p = heap ls ! p"
proof (cases a)
  case (Log d)
  then show ?thesis using assms by (auto simp: step_def go_sendData_def nth_append split: if_splits)
next
  case SendNil
  then show ?thesis using assms by (auto simp: step_def go_sendNil_def split: if_splits)
next
  case (SendData k)
  then show ?thesis using assms
    by (auto simp: step_def sendData_def split: if_splits send_outcome.splits)
next
  case (Add i l)
  then show ?thesis using assms by (auto simp: step_def AddLogger_def split: if_splits)
next
  case (Remove i)
  then show ?thesis using assms by (auto simp: step_def RemoveLogger_def split: if_splits)
next
  case CloseStopCh
  then show ?thesis using assms by (auto simp: step_def close_stopCh_def split: if_splits)
next
  case MainStopCase
  then show ?thesis using assms
    by (auto simp: step_def main_stop_case_def split: if_splits main_pc.splits)
next
  case MainRecv
  then show ?thesis using assms
    by (auto simp: step_def main_recv_def split: if_splits main_pc.splits recv_outcome.splits)
next
  case MainProcess
  then show ?thesis using assms
    by (auto simp: step_def processLogData_def split: if_splits main_pc.splits prod.splits)
next
  case MainSendJob
  then show ?thesis using assms
    by (auto simp: step_def send_job_def
        split: if_splits main_pc.splits list.splits send_outcome.splits)
next
  case MainDefer
  then show ?thesis using assms
    by (auto simp: step_def main_defer_def split: if_splits main_pc.splits option.splits)
next
  case (WorkerRange i)
  then show ?thesis using assms
    by (auto simp: step_def runWorker_def split: if_splits worker_pc.splits recv_outcome.splits)
next
  case (TaskSendMsg t)
  then show ?thesis using assms by simp
next
  case (TaskClose t)
  then show ?thesis using assms
    by (auto simp: step_def task_close_def split: if_splits task_state.splits)
next
  case (WorkerDone i)
  then show ?thesis using assms
    by (auto simp: step_def processJob_done_def split: if_splits worker_pc.splits)
next
  case (WorkerTimeout i)
  then show ?thesis using assms
    by (auto simp: step_def processJob_timeout_def split: if_splits worker_pc.splits)
next
  case StopClose
  then show ?thesis using assms
    by (auto simp: step_def Stop_close_def chan_close_def split: if_splits option.splits)
next
  case StopWaitMain
  then show ?thesis using assms
    by (auto simp: step_def Stop_wait_main_def split: if_splits stop_pc.splits)
next
  case StopWaitWorkers
  then show ?thesis using assms
    by (auto simp: step_def Stop_wait_workers_def split: if_splits stop_pc.splits)
qed

lemma task_SendMsg_heap:
  assumes "step (TaskSendMsg t) ls = Some ls'"
  shows "heap ls' = heap ls
       \<or> (\<exists>d'. logger (tjob (tasks ls ! t)) (heap ls ! logData (tjob (tasks ls ! t))) = Returns d'
               \<and> heap ls' = (heap ls)[logData (tjob (tasks ls ! t)) := d'])"
  using assms
  by (auto simp: step_def task_SendMsg_def Let_def
      split: if_splits task_state.splits send_result.splits)


lemma shared_wait_state_fields:
  "halted shared_wait_state = None"
  "heap shared_wait_state = [record_nil_ctx]"
  "tasks shared_wait_state =
     [\<lparr>tjob = \<lparr>loggerID = ''Z1'', logger = zap_publisher (NewZapLogger ''app'' ''dev''), logData = 0\<rparr>,
        tstate = TStart\<rparr>,
      \<lparr>tjob = \<lparr>loggerID = ''Z2'', logger = zap_publisher (NewZapLogger ''app'' ''prod''), logData = 0\<rparr>,
        tstate = TStart\<rparr>]"
  "calls shared_wait_state = []"
  unfolding shared_wait_state_def shared_wait_schedule_def
  by (simp_all add: step_defs init_defs Let_def snapshot_jobs_def eval_nat_numeral)

lemma shared_wait_run:
  "run shared_wait_schedule (Start NewLoggerService) = Some shared_wait_state"
  unfolding shared_wait_state_def shared_wait_schedule_def
  by (simp add: step_defs init_defs Let_def snapshot_jobs_def eval_nat_numeral)

lemma run_append:
  "run (as @ bs) ls = (case run as ls of None \<Rightarrow> None | Some ls' \<Rightarrow> run bs ls')"
  by (induction as arbitrary: ls) (auto split: option.splits)

text \<open>
  C7, as stated, fails: \<^verbatim>\<open>SendMsg\<close> of the zap publisher assigns \<^verbatim>\<open>logData.Ctx\<close> when it is
  nil. One record with a nil context delivered to two zap publishers is seen with a nil
  context by the first call and with the background context by the second, and the stored
  record is no longer the one that was enqueued.
\<close>

theorem zap_writes_shared_record:
  "map_option (map (\<lambda>c. (fst c, Ctx (snd (snd c)))) \<circ> calls)
      (run shared_record_schedule (Start NewLoggerService))
     = Some [(''Z1'', None), (''Z2'', Some Background)]
   \<and> Ctx record_nil_ctx = None
   \<and> map_option (\<lambda>ls. Ctx (heap ls ! 0)) (run shared_record_schedule (Start NewLoggerService))
     = Some (Some Background)"
  unfolding shared_record_schedule_def run_append shared_wait_run
  by (simp add: step_def task_SendMsg_def Let_def shared_wait_state_fields zap_publisher_def
      SendMsg_def level_switch_def level_defs record_nil_ctx_def logMsg_def)

text \<open>
  C7, amended. No step of a producer, of the main worker, of a worker or of \<^verbatim>\<open>Stop\<close> writes
  to a record that has been allocated; the only step that can is the publish call. The
  bundled zap publisher (like the mock of the tests) leaves the message, the fields and
  the level of the record as they are, and writes the context only to replace nil by the
  background context.
\<close>

theorem record_written_only_by_publish_call:
  assumes "step a ls = Some ls'" and "p < length (heap ls)"
      and "\<forall>t. a = TaskSendMsg t \<longrightarrow>
             (\<exists>l. logger (tjob (tasks ls ! t)) = zap_publisher l)
             \<or> logger (tjob (tasks ls ! t)) = mockPublisher"
  shows "Msg (heap ls' ! p) = Msg (heap ls ! p)
       \<and> Fields (heap ls' ! p) = Fields (heap ls ! p)
       \<and> Level (heap ls' ! p) = Level (heap ls ! p)
       \<and> (Ctx (heap ls' ! p) = Ctx (heap ls ! p)
            \<or> Ctx (heap ls ! p) = None \<and> Ctx (heap ls' ! p) = Some Background)
       \<and> ((\<forall>t. a \<noteq> TaskSendMsg t) \<longrightarrow> heap ls' ! p = heap ls ! p)"
proof (cases "\<exists>t. a = TaskSendMsg t")
  case False
  then have "heap ls' ! p = heap ls ! p" using heap_frame [OF assms(1) _ assms(2)] by blast
  then show ?thesis by simp
next
  case True
  then obtain t where a: "a = TaskSendMsg t" by blast
  let ?job = "tjob (tasks ls ! t)"
  let ?d = "heap ls ! logData ?job"
  from task_SendMsg_heap [of t ls ls'] assms(1) a
  consider "heap ls' = heap ls"
    | d' where "logger ?job ?d = Returns d'" "heap ls' = (heap ls)[logData ?job := d']"
    by blast
  then show ?thesis
  proof cases
    case 1
    then show ?thesis using a by simp
  next
    case 2
    have d': "d' = ?d \<or> (Ctx ?d = None \<and> d' = ?d\<lparr>Ctx := Some Background\<rparr>)"
    proof -
      from assms(3) a
      consider l where "logger ?job = zap_publisher l" | "logger ?job = mockPublisher"
        by blast
      then show ?thesis
      proof cases
        case 1
        then show ?thesis using zap_publisher_result [of l ?d d'] 2(1) by (auto split: if_splits)
      next
        case 2
        then show ?thesis using \<open>logger ?job ?d = Returns d'\<close> by (simp add: mockPublisher_def)
      qed
    qed
    show ?thesis
    proof (cases "p = logData ?job")
      case True
      then have "heap ls' ! p = d'" using 2(2) assms(2) by simp
      then show ?thesis using d' True a by auto
    next
      case False
      then have "heap ls' ! p = heap ls ! p" using 2(2) by simp
      then show ?thesis using a by simp
    qed
  qed
qed

theorem record_written_only_by_publish_call_witness:
  "step (TaskSendMsg 0) shared_wait_state = Some (the (step (TaskSendMsg 0) shared_wait_state))
   \<and> Msg (heap (the (step (TaskSendMsg 0) shared_wait_state)) ! 0) = ''m1''
   \<and> Level (heap (the (step (TaskSendMsg 0) shared_wait_state)) ! 0) = InfoLevel
   \<and> Fields (heap (the (step (TaskSendMsg 0) shared_wait_state)) ! 0) = Fields record_nil_ctx
   \<and> Ctx (heap (the (step (TaskSendMsg 0) shared_wait_state)) ! 0) = Some Background"
proof -
  let ?ls' = "the (step (TaskSendMsg 0) shared_wait_state)"
  have s: "step (TaskSendMsg 0) shared_wait_state = Some ?ls'"
    by (simp add: step_def task_SendMsg_def Let_def shared_wait_state_fields zap_publisher_def
        SendMsg_def level_switch_def level_defs record_nil_ctx_def logMsg_def)
  have p: "0 < length (heap shared_wait_state)" by (simp add: shared_wait_state_fields)
  have z: "\<forall>t. TaskSendMsg 0 = TaskSendMsg t \<longrightarrow>
             (\<exists>l. logger (tjob (tasks shared_wait_state ! t)) = zap_publisher l)
             \<or> logger (tjob (tasks shared_wait_state ! t)) = mockPublisher"
    by (auto simp: shared_wait_state_fields)
  have c: "Ctx (heap ?ls' ! 0) = Some Background"
    by (simp add: step_def task_SendMsg_def Let_def shared_wait_state_fields zap_publisher_def
        SendMsg_def level_switch_def level_defs record_nil_ctx_def logMsg_def)
  from record_written_only_by_publish_call [OF s p z]
  have "Msg (heap ?ls' ! 0) = Msg (heap shared_wait_state ! 0)"
    "Fields (heap ?ls' ! 0) = Fields (heap shared_wait_state ! 0)"
    "Level (heap ?ls' ! 0) = Level (heap shared_wait_state ! 0)"
    by simp_all
  then have "Msg (heap ?ls' ! 0) = ''m1''" "Fields (heap ?ls' ! 0) = Fields record_nil_ctx"
    "Level (heap ?ls' ! 0) = InfoLevel"
    by (simp_all add: shared_wait_state_fields record_nil_ctx_def logMsg_def)
  then show ?thesis using s c by simp
qed

section \<open>Shutdown\<close>

lemma run_invariant:
  assumes "run as ls = Some ls'" and "P ls"
      and "\<And>a s s'. P s \<Longrightarrow> step a s = Some s' \<Longrightarrow> P s'"
  shows "P ls'"
  using assms(1,2)
proof (induction as arbitrary: ls)
  case Nil
  then show ?case by simp
next
  case (Cons a as)
  then obtain s where s: "step a ls = Some s" "run as s = Some ls'"
    by (auto split: option.splits)
  then show ?case using Cons.IH [of s] assms(3) [of ls a s] Cons.prems(2) by blast
qed

lemma map_tjob_update [simp]:
  "map tjob (ts[t := (ts ! t)\<lparr>tstate := x\<rparr>]) = map tjob ts"
proof (cases "t < length ts")
  case True
  then show ?thesis by (intro nth_equalityI) (auto simp: nth_list_update)
next
  case False
  then have "length ts \<le> t" by simp
  then show ?thesis by (simp add: list_update_beyond)
qed

lemmas step_splits = if_splits option.splits send_outcome.splits recv_outcome.splits
  main_pc.splits worker_pc.splits task_state.splits stop_pc.splits list.splits prod.splits
  send_result.splits

lemma queues_inv_step:
  assumes "queues_inv s" and "step a s = Some s'"
  shows "queues_inv s'"
proof (cases a)
  case (Log d)
  then show ?thesis using assms by (auto simp: step_def go_sendData_def queues_inv_def split: if_splits)
next
  case SendNil
  then show ?thesis using assms by (auto simp: step_def go_sendNil_def queues_inv_def split: if_splits)
next
  case (SendData k)
  then show ?thesis using assms
    by (auto simp: step_def sendData_def chan_send_def queues_inv_def split: if_splits)
next
  case (Add i l)
  then show ?thesis using assms by (auto simp: step_def AddLogger_def queues_inv_def split: if_splits)
next
  case (Remove i)
  then show ?thesis using assms by (auto simp: step_def RemoveLogger_def queues_inv_def split: if_splits)
next
  case CloseStopCh
  then show ?thesis using assms by (auto simp: step_def close_stopCh_def queues_inv_def split: if_splits)
next
  case MainStopCase
  then show ?thesis using assms
    by (auto simp: step_def main_stop_case_def queues_inv_def pending_def in_process_def
        split: if_splits main_pc.splits)
next
  case MainRecv
  then show ?thesis using assms
    by (auto simp: step_def main_recv_def chan_recv_def queues_inv_def pending_def in_process_def
        split: if_splits main_pc.splits list.splits)
next
  case MainProcess
  then show ?thesis using assms
    by (auto simp: step_def processLogData_def queues_inv_def pending_def in_process_def
        jobs_of_snapshot_def loop_pc_def
        split: if_splits main_pc.splits list.splits prod.splits)
next
  case MainSendJob
  then show ?thesis using assms
    by (auto simp: step_def send_job_def chan_send_def queues_inv_def pending_def in_process_def
        loop_pc_def
        split: if_splits main_pc.splits list.splits)
next
  case MainDefer
  then show ?thesis using assms
    by (auto simp: step_def main_defer_def chan_close_def queues_inv_def pending_def in_process_def
        split: if_splits main_pc.splits)
next
  case (WorkerRange i)
  then show ?thesis using assms
    by (auto simp: step_def runWorker_def chan_recv_def queues_inv_def
        split: if_splits worker_pc.splits list.splits)
next
  case (TaskSendMsg t)
  then show ?thesis using assms
    by (auto simp: step_def task_SendMsg_def Let_def queues_inv_def
        split: if_splits task_state.splits send_result.splits)
next
  case (TaskClose t)
  then show ?thesis using assms
    by (auto simp: step_def task_close_def queues_inv_def split: if_splits task_state.splits)
next
  case (WorkerDone i)
  then show ?thesis using assms
    by (auto simp: step_def processJob_done_def queues_inv_def split: if_splits worker_pc.splits)
next
  case (WorkerTimeout i)
  then show ?thesis using assms
    by (auto simp: step_def processJob_timeout_def queues_inv_def split: if_splits worker_pc.splits)
next
  case StopClose
  then show ?thesis using assms
    by (auto simp: step_def Stop_close_def chan_close_def queues_inv_def split: if_splits)
next
  case StopWaitMain
  then show ?thesis using assms
    by (auto simp: step_def Stop_wait_main_def queues_inv_def split: if_splits stop_pc.splits)
next
  case StopWaitWorkers
  then show ?thesis using assms
    by (auto simp: step_def Stop_wait_workers_def queues_inv_def split: if_splits stop_pc.splits)
qed

lemma length_filter_update:
  "i < length xs \<Longrightarrow>
   length (filter P (xs[i := y])) + (if P (xs ! i) then 1 else 0)
     = length (filter P xs) + (if P y then 1 else 0)"
proof (induction xs arbitrary: i)
  case Nil
  then show ?case by simp
next
  case (Cons x xs)
  then show ?case by (cases i) auto
qed

lemma exited_update_same:
  assumes "i < length ws" and "\<not> exited (ws ! i)" and "\<not> exited w"
  shows "length (filter (\<lambda>w. \<not> exited w) (ws[i := w])) = length (filter (\<lambda>w. \<not> exited w) ws)"
  using length_filter_update [OF assms(1), of "\<lambda>w. \<not> exited w" w] assms(2,3) by simp

lemma exited_update_exit:
  assumes "i < length ws" and "\<not> exited (ws ! i)"
  shows "Suc (length (filter (\<lambda>w. \<not> exited w) (ws[i := WExited])))
           = length (filter (\<lambda>w. \<not> exited w) ws)"
  using length_filter_update [OF assms(1), of "\<lambda>w. \<not> exited w" WExited] assms(2) by simp

lemma set_update_exited:
  assumes "i < length ws" and "\<not> exited (ws ! i)" and "\<not> exited w"
  shows "(\<exists>x \<in> set (ws[i := w]). exited x) = (\<exists>x \<in> set ws. exited x)"
proof
  assume "\<exists>x \<in> set (ws[i := w]). exited x"
  then obtain x where x: "x \<in> set (ws[i := w])" "exited x" by blast
  then have "x \<in> insert w (set ws)" using set_update_subset_insert by fastforce
  then show "\<exists>x \<in> set ws. exited x" using x(2) assms(3) by auto
next
  assume "\<exists>x \<in> set ws. exited x"
  then obtain x where x: "x \<in> set ws" "exited x" by blast
  then obtain j where j: "j < length ws" "ws ! j = x" by (auto simp: in_set_conv_nth)
  then have "j \<noteq> i" using assms(2) x(2) by auto
  then have "ws[i := w] ! j = x" using j by simp
  then show "\<exists>x \<in> set (ws[i := w]). exited x" using j(1) x(2)
    by (metis length_list_update nth_mem)
qed

lemma all_exited_no_step:
  assumes "\<forall>w \<in> set ws. exited w" and "i < length ws"
  shows "exited (ws ! i)"
  using assms by simp


lemma runWorker_cases:
  assumes "step (WorkerRange i) s = Some s'"
  obtains
    (recv) job rest where "i < length (workers s)" "workers s ! i = WRange"
      "buf (jobCh s) = job # rest"
      "s' = s\<lparr>jobCh := (jobCh s)\<lparr>buf := rest\<rparr>,
               tasks := tasks s @ [\<lparr>tjob = job, tstate = TStart\<rparr>],
               workers := (workers s)[i := WSelect job (length (tasks s))]\<rparr>"
  | (panic) "s' = s\<lparr>halted := Some Panic\<rparr>"
  | (exit) "i < length (workers s)" "workers s ! i = WRange" "buf (jobCh s) = []"
      "is_closed (jobCh s)" "wg s \<noteq> 0"
      "s' = s\<lparr>wg := wg s - 1, workers := (workers s)[i := WExited]\<rparr>"
  using assms
  by (auto simp: step_def runWorker_def chan_recv_def
      split: if_splits worker_pc.splits list.splits)

lemma processJob_done_cases:
  assumes "step (WorkerDone i) s = Some s'"
  obtains job t where "i < length (workers s)" "workers s ! i = WSelect job t"
    "t < length (tasks s)" "tstate (tasks s ! t) = TClosed"
    "s' = s\<lparr>workers := (workers s)[i := WRange]\<rparr>"
  using assms
  by (auto simp: step_def processJob_done_def split: if_splits worker_pc.splits)

lemma processJob_timeout_cases:
  assumes "step (WorkerTimeout i) s = Some s'"
  obtains job t where "i < length (workers s)" "workers s ! i = WSelect job t"
    "s' = s\<lparr>stdout := stdout s @
               [FailedToSend (loggerID job) sendTimeout (Msg (heap s ! logData job))],
             workers := (workers s)[i := WRange],
             timed_out := timed_out s @ [t]\<rparr>"
  using assms
  by (auto simp: step_def processJob_timeout_def split: if_splits worker_pc.splits)

lemma shutdown_inv_worker_update:
  assumes inv: "shutdown_inv s" and i: "i < length (workers s)"
      and old: "\<not> exited (workers s ! i)" and new: "\<not> exited w"
      and jc: "is_closed c = is_closed (jobCh s)"
      and jb: "buf (jobCh s) = [] \<longrightarrow> buf c = []"
  shows "shutdown_inv (s\<lparr>jobCh := c, tasks := ts, workers := (workers s)[i := w],
                          stdout := out, timed_out := tos\<rparr>)"
proof -
  have ex: "(\<exists>x \<in> set ((workers s)[i := w]). exited x) = (\<exists>x \<in> set (workers s). exited x)"
    using set_update_exited [OF i old new] .
  have cnt: "length (filter (\<lambda>w. \<not> exited w) ((workers s)[i := w]))
      = length (filter (\<lambda>w. \<not> exited w) (workers s))"
    using exited_update_same [OF i old new] .
  have nr: "stopCall s \<noteq> SReturned"
    using inv i old unfolding shutdown_inv_def by (metis nth_mem)
  show ?thesis
    using inv ex cnt nr jc jb unfolding shutdown_inv_def by auto
qed


lemma sendData_cases:
  assumes "step (SendData k) s = Some s'"
  obtains
    (sent) "k < length (senders s)" "\<not> is_closed (inputCh s)"
      "s' = s\<lparr>inputCh := (inputCh s)\<lparr>buf := buf (inputCh s) @ [senders s ! k]\<rparr>,
               senders := take k (senders s) @ drop (Suc k) (senders s),
               accepted := accepted s @ [senders s ! k]\<rparr>"
  | (panic) "s' = s\<lparr>halted := Some Panic\<rparr>"
  using assms
  by (auto simp: step_def sendData_def chan_send_def split: if_splits)

lemma close_stopCh_cases:
  assumes "step CloseStopCh s = Some s'"
  obtains (closed) "s' = s\<lparr>stopCh := True\<rparr>" | (panic) "s' = s\<lparr>halted := Some Panic\<rparr>"
  using assms by (auto simp: step_def close_stopCh_def split: if_splits)

lemma main_stop_case_cases:
  assumes "step MainStopCase s = Some s'"
  obtains "mainWorker s = MSelect" "s' = s\<lparr>mainWorker := MRange\<rparr>"
  using assms by (auto simp: step_def main_stop_case_def split: if_splits main_pc.splits)

lemma main_recv_cases:
  assumes "step MainRecv s = Some s'"
  obtains
    (recv) in_range p rest where "mainWorker s = loop_pc in_range" "buf (inputCh s) = p # rest"
      "s' = s\<lparr>inputCh := (inputCh s)\<lparr>buf := rest\<rparr>, mainWorker := MProcess in_range p,
               received := received s @ [p]\<rparr>"
  | (closed) in_range where "mainWorker s = loop_pc in_range" "buf (inputCh s) = []"
      "is_closed (inputCh s)" "s' = s\<lparr>mainWorker := MDeferClose\<rparr>"
proof -
  from assms consider
    (a) p rest where "mainWorker s = MSelect" "buf (inputCh s) = p # rest"
      "s' = s\<lparr>inputCh := (inputCh s)\<lparr>buf := rest\<rparr>, mainWorker := MProcess False p,
               received := received s @ [p]\<rparr>"
  | (b) p rest where "mainWorker s = MRange" "buf (inputCh s) = p # rest"
      "s' = s\<lparr>inputCh := (inputCh s)\<lparr>buf := rest\<rparr>, mainWorker := MProcess True p,
               received := received s @ [p]\<rparr>"
  | (c) "mainWorker s = MSelect \<or> mainWorker s = MRange" "buf (inputCh s) = []"
      "is_closed (inputCh s)" "s' = s\<lparr>mainWorker := MDeferClose\<rparr>"
    by (auto simp: step_def main_recv_def chan_recv_def
        split: if_splits main_pc.splits list.splits)
  then show ?thesis
  proof cases
    case a
    then show ?thesis using recv [of False p rest] by (simp add: loop_pc_def)
  next
    case b
    then show ?thesis using recv [of True p rest] by (simp add: loop_pc_def)
  next
    case c
    then show ?thesis using closed [of False] closed [of True] by (auto simp: loop_pc_def)
  qed
qed

lemma processLogData_cases:
  assumes "step MainProcess s = Some s'"
  obtains in_range p jobs out where "mainWorker s = MProcess in_range p"
    "snapshot_jobs (loggers s) p = (jobs, out)"
    "s' = s\<lparr>stdout := stdout s @ out, created := created s @ jobs,
             dispatched := dispatched s @ [(p, loggers s)],
             mainWorker := (case jobs of [] \<Rightarrow> loop_pc in_range
                            | _ # _ \<Rightarrow> MSendJobs in_range jobs)\<rparr>"
  using assms
  by (auto simp: step_def processLogData_def split: if_splits main_pc.splits prod.splits)

lemma send_job_cases:
  assumes "step MainSendJob s = Some s'"
  obtains
    (sent) in_range job rest where "mainWorker s = MSendJobs in_range (job # rest)"
      "\<not> is_closed (jobCh s)"
      "s' = s\<lparr>jobCh := (jobCh s)\<lparr>buf := buf (jobCh s) @ [job]\<rparr>,
               mainWorker := (case rest of [] \<Rightarrow> loop_pc in_range
                              | _ # _ \<Rightarrow> MSendJobs in_range rest)\<rparr>"
  | (panic) "s' = s\<lparr>halted := Some Panic\<rparr>"
  using assms
  by (auto simp: step_def send_job_def chan_send_def
      split: if_splits main_pc.splits list.splits)

lemma main_defer_cases:
  assumes "step MainDefer s = Some s'"
  obtains
    (closing) "mainWorker s = MDeferClose" "\<not> is_closed (jobCh s)"
      "s' = s\<lparr>jobCh := (jobCh s)\<lparr>is_closed := True\<rparr>, mainWorker := MDeferDone\<rparr>"
  | (leaving) "mainWorker s = MDeferDone" "mainWg s \<noteq> 0"
      "s' = s\<lparr>mainWg := mainWg s - 1, mainWorker := MExited\<rparr>"
  | (panic) "s' = s\<lparr>halted := Some Panic\<rparr>"
  using assms
  by (auto simp: step_def main_defer_def chan_close_def split: if_splits main_pc.splits)

lemma task_SendMsg_cases:
  assumes "step (TaskSendMsg t) s = Some s'"
  obtains
    (returns) d' where "t < length (tasks s)" "tstate (tasks s ! t) = TStart"
      "logger (tjob (tasks s ! t)) (heap s ! logData (tjob (tasks s ! t))) = Returns d'"
      "s' = s\<lparr>calls := calls s @ [(loggerID (tjob (tasks s ! t)), logData (tjob (tasks s ! t)),
                                     heap s ! logData (tjob (tasks s ! t)))],
               heap := (heap s)[logData (tjob (tasks s ! t)) := d'],
               tasks := (tasks s)[t := (tasks s ! t)\<lparr>tstate := TSent\<rparr>]\<rparr>"
  | (ends) h where "t < length (tasks s)" "tstate (tasks s ! t) = TStart"
      "s' = s\<lparr>calls := calls s @ [(loggerID (tjob (tasks s ! t)), logData (tjob (tasks s ! t)),
                                     heap s ! logData (tjob (tasks s ! t)))],
               halted := Some h\<rparr>"
  using assms
  by (auto simp: step_def task_SendMsg_def Let_def
      split: if_splits task_state.splits send_result.splits)

lemma task_close_cases:
  assumes "step (TaskClose t) s = Some s'"
  obtains "t < length (tasks s)" "tstate (tasks s ! t) = TSent"
    "s' = s\<lparr>tasks := (tasks s)[t := (tasks s ! t)\<lparr>tstate := TClosed\<rparr>]\<rparr>"
  using assms
  by (auto simp: step_def task_close_def split: if_splits task_state.splits)

lemma Stop_close_cases:
  assumes "step StopClose s = Some s'"
  obtains
    (closing) "\<not> is_closed (inputCh s)"
      "s' = s\<lparr>inputCh := (inputCh s)\<lparr>is_closed := True\<rparr>, stopCall := SWaitMain\<rparr>"
  | (panic) "s' = s\<lparr>halted := Some Panic\<rparr>"
  using assms by (auto simp: step_def Stop_close_def chan_close_def split: if_splits)

lemma Stop_wait_main_cases:
  assumes "step StopWaitMain s = Some s'"
  obtains "stopCall s = SWaitMain" "mainWg s = 0" "s' = s\<lparr>stopCall := SWaitWorkers\<rparr>"
  using assms by (auto simp: step_def Stop_wait_main_def split: if_splits stop_pc.splits)

lemma Stop_wait_workers_cases:
  assumes "step StopWaitWorkers s = Some s'"
  obtains "stopCall s = SWaitWorkers" "wg s = 0" "s' = s\<lparr>stopCall := SReturned\<rparr>"
  using assms by (auto simp: step_def Stop_wait_workers_def split: if_splits stop_pc.splits)

lemma shutdown_inv_halted: "shutdown_inv s \<Longrightarrow> shutdown_inv (s\<lparr>halted := h\<rparr>)"
  unfolding shutdown_inv_def by auto

lemma shutdown_inv_Log: "shutdown_inv s \<Longrightarrow> shutdown_inv (go_sendData d s)"
  unfolding shutdown_inv_def go_sendData_def by auto

lemma shutdown_inv_SendNil: "shutdown_inv s \<Longrightarrow> shutdown_inv (go_sendNil s)"
  unfolding shutdown_inv_def go_sendNil_def by auto

lemma shutdown_inv_Add: "shutdown_inv s \<Longrightarrow> shutdown_inv (AddLogger i l s)"
  unfolding shutdown_inv_def AddLogger_def by auto

lemma shutdown_inv_Remove: "shutdown_inv s \<Longrightarrow> shutdown_inv (RemoveLogger i s)"
  unfolding shutdown_inv_def RemoveLogger_def by auto

lemma loop_pc_simps [simp]:
  "main_started (loop_pc b)" "\<not> main_closed_jobs (loop_pc b)" "\<not> main_returned (loop_pc b)"
  "\<not> main_exited (loop_pc b)" "pending (loop_pc b) = []" "in_process (loop_pc b) = []"
  by (simp_all add: loop_pc_def pending_def in_process_def)

lemma shutdown_inv_step:
  assumes inv: "shutdown_inv s" and st: "step a s = Some s'"
  shows "shutdown_inv s'"
proof (cases a)
  case (Log d)
  then show ?thesis using inv st by (auto simp: step_def shutdown_inv_Log split: if_splits)
next
  case SendNil
  then show ?thesis using inv st by (auto simp: step_def shutdown_inv_SendNil split: if_splits)
next
  case (SendData k)
  from st [unfolded SendData] show ?thesis
  proof (cases rule: sendData_cases)
    case sent
    then show ?thesis using inv unfolding shutdown_inv_def by auto
  next
    case panic
    then show ?thesis using inv by (simp add: shutdown_inv_halted)
  qed
next
  case (Add i l)
  then show ?thesis using inv st by (auto simp: step_def shutdown_inv_Add split: if_splits)
next
  case (Remove i)
  then show ?thesis using inv st by (auto simp: step_def shutdown_inv_Remove split: if_splits)
next
  case CloseStopCh
  from st [unfolded CloseStopCh] show ?thesis
  proof (cases rule: close_stopCh_cases)
    case closed
    then show ?thesis using inv unfolding shutdown_inv_def by auto
  next
    case panic
    then show ?thesis using inv by (simp add: shutdown_inv_halted)
  qed
next
  case MainStopCase
  from st [unfolded MainStopCase] show ?thesis
  proof (cases rule: main_stop_case_cases)
    case 1
    then show ?thesis using inv unfolding shutdown_inv_def by auto
  qed
next
  case MainRecv
  from st [unfolded MainRecv] show ?thesis
  proof (cases rule: main_recv_cases)
    case (recv in_range p rest)
    then show ?thesis using inv unfolding shutdown_inv_def by auto
  next
    case (closed in_range)
    then show ?thesis using inv unfolding shutdown_inv_def by auto
  qed
next
  case MainProcess
  from st [unfolded MainProcess] show ?thesis
  proof (cases rule: processLogData_cases)
    case (1 in_range p jobs out)
    then show ?thesis using inv unfolding shutdown_inv_def by (cases jobs) auto
  qed
next
  case MainSendJob
  from st [unfolded MainSendJob] show ?thesis
  proof (cases rule: send_job_cases)
    case (sent in_range job rest)
    then show ?thesis using inv unfolding shutdown_inv_def by (cases rest) auto
  next
    case panic
    then show ?thesis using inv by (simp add: shutdown_inv_halted)
  qed
next
  case MainDefer
  from st [unfolded MainDefer] show ?thesis
  proof (cases rule: main_defer_cases)
    case closing
    then show ?thesis using inv unfolding shutdown_inv_def by auto
  next
    case leaving
    then show ?thesis using inv unfolding shutdown_inv_def by auto
  next
    case panic
    then show ?thesis using inv by (simp add: shutdown_inv_halted)
  qed
next
  case (WorkerRange i)
  from st [unfolded WorkerRange] show ?thesis
  proof (cases rule: runWorker_cases)
    case (recv job rest)
    have "shutdown_inv (s\<lparr>jobCh := (jobCh s)\<lparr>buf := rest\<rparr>,
        tasks := tasks s @ [\<lparr>tjob = job, tstate = TStart\<rparr>],
        workers := (workers s)[i := WSelect job (length (tasks s))],
        stdout := stdout s, timed_out := timed_out s\<rparr>)"
      by (rule shutdown_inv_worker_update [OF inv recv(1)]) (simp_all add: recv)
    then show ?thesis by (simp add: recv(4))
  next
    case panic
    then show ?thesis using inv by (simp add: shutdown_inv_halted)
  next
    case exit
    have cnt: "Suc (length (filter (\<lambda>w. \<not> exited w) ((workers s)[i := WExited])))
        = length (filter (\<lambda>w. \<not> exited w) (workers s))"
      by (rule exited_update_exit [OF exit(1)]) (simp add: exit(2))
    have nr: "stopCall s \<noteq> SReturned"
      using inv exit(1,2) unfolding shutdown_inv_def by (metis exited.simps(2) nth_mem)
    show ?thesis
      using inv cnt nr exit(3,4,5) unfolding shutdown_inv_def exit(6) by auto
  qed
next
  case (TaskSendMsg t)
  from st [unfolded TaskSendMsg] show ?thesis
  proof (cases rule: task_SendMsg_cases)
    case (returns d')
    then show ?thesis using inv unfolding shutdown_inv_def by auto
  next
    case (ends h)
    then show ?thesis using inv unfolding shutdown_inv_def by auto
  qed
next
  case (TaskClose t)
  from st [unfolded TaskClose] show ?thesis
  proof (cases rule: task_close_cases)
    case 1
    then show ?thesis using inv unfolding shutdown_inv_def by auto
  qed
next
  case (WorkerDone i)
  from st [unfolded WorkerDone] show ?thesis
  proof (cases rule: processJob_done_cases)
    case (1 job t)
    have "shutdown_inv (s\<lparr>jobCh := jobCh s, tasks := tasks s,
        workers := (workers s)[i := WRange], stdout := stdout s, timed_out := timed_out s\<rparr>)"
      by (rule shutdown_inv_worker_update [OF inv 1(1)]) (simp_all add: 1)
    then show ?thesis by (simp add: 1(5))
  qed
next
  case (WorkerTimeout i)
  from st [unfolded WorkerTimeout] show ?thesis
  proof (cases rule: processJob_timeout_cases)
    case (1 job t)
    have "shutdown_inv (s\<lparr>jobCh := jobCh s, tasks := tasks s,
        workers := (workers s)[i := WRange],
        stdout := stdout s @ [FailedToSend (loggerID job) sendTimeout (Msg (heap s ! logData job))],
        timed_out := timed_out s @ [t]\<rparr>)"
      by (rule shutdown_inv_worker_update [OF inv 1(1)]) (simp_all add: 1)
    then show ?thesis by (auto simp: 1(3) shutdown_inv_def)
  qed
next
  case StopClose
  from st [unfolded StopClose] show ?thesis
  proof (cases rule: Stop_close_cases)
    case closing
    then show ?thesis using inv unfolding shutdown_inv_def by auto
  next
    case panic
    then show ?thesis using inv by (simp add: shutdown_inv_halted)
  qed
next
  case StopWaitMain
  from st [unfolded StopWaitMain] show ?thesis
  proof (cases rule: Stop_wait_main_cases)
    case 1
    then show ?thesis using inv unfolding shutdown_inv_def by (auto split: if_splits)
  qed
next
  case StopWaitWorkers
  from st [unfolded StopWaitWorkers] show ?thesis
  proof (cases rule: Stop_wait_workers_cases)
    case 1
    then show ?thesis using inv unfolding shutdown_inv_def by (auto simp: filter_empty_conv)
  qed
qed

lemma awaited_update_other:
  assumes "awaited ws t" and "i < length ws" and "\<forall>job. ws ! i \<noteq> WSelect job t"
  shows "awaited (ws[i := w]) t"
proof -
  from assms(1) obtain i' job where i': "i' < length ws" "ws ! i' = WSelect job t"
    unfolding awaited_def by blast
  then have "i' \<noteq> i" using assms(3) by auto
  then have "ws[i := w] ! i' = WSelect job t" using i' by simp
  then show ?thesis unfolding awaited_def using i'(1) by auto
qed

lemma awaited_update_self:
  assumes "i < length ws"
  shows "awaited (ws[i := WSelect job t]) t"
  unfolding awaited_def using assms by (intro exI [of _ i]) simp

lemma waits_inv_frame:
  assumes "waits_inv s" and "tasks s' = tasks s" and "workers s' = workers s"
      and "timed_out s' = timed_out s" and "calls s' = calls s"
  shows "waits_inv s'"
  using assms unfolding waits_inv_def by simp

lemma waits_inv_step:
  assumes inv: "waits_inv s" and st: "step a s = Some s'"
  shows "waits_inv s'"
proof (cases a)
  case (Log d)
  then show ?thesis using st
    by (intro waits_inv_frame [OF inv]) (auto simp: step_def go_sendData_def split: if_splits)
next
  case SendNil
  then show ?thesis using st
    by (intro waits_inv_frame [OF inv]) (auto simp: step_def go_sendNil_def split: if_splits)
next
  case (SendData k)
  from st [unfolded SendData] show ?thesis
    by (cases rule: sendData_cases) (auto intro: waits_inv_frame [OF inv])
next
  case (Add i l)
  then show ?thesis using st
    by (intro waits_inv_frame [OF inv]) (auto simp: step_def AddLogger_def split: if_splits)
next
  case (Remove i)
  then show ?thesis using st
    by (intro waits_inv_frame [OF inv]) (auto simp: step_def RemoveLogger_def split: if_splits)
next
  case CloseStopCh
  from st [unfolded CloseStopCh] show ?thesis
    by (cases rule: close_stopCh_cases) (auto intro: waits_inv_frame [OF inv])
next
  case MainStopCase
  from st [unfolded MainStopCase] show ?thesis
    by (cases rule: main_stop_case_cases) (auto intro: waits_inv_frame [OF inv])
next
  case MainRecv
  from st [unfolded MainRecv] show ?thesis
    by (cases rule: main_recv_cases) (auto intro: waits_inv_frame [OF inv])
next
  case MainProcess
  from st [unfolded MainProcess] show ?thesis
    by (cases rule: processLogData_cases) (auto intro: waits_inv_frame [OF inv])
next
  case MainSendJob
  from st [unfolded MainSendJob] show ?thesis
    by (cases rule: send_job_cases) (auto intro: waits_inv_frame [OF inv])
next
  case MainDefer
  from st [unfolded MainDefer] show ?thesis
    by (cases rule: main_defer_cases) (auto intro: waits_inv_frame [OF inv])
next
  case (WorkerRange i)
  from st [unfolded WorkerRange] show ?thesis
  proof (cases rule: runWorker_cases)
    case (recv job rest)
    let ?n = "length (tasks s)"
    let ?ws = "(workers s)[i := WSelect job ?n]"
    have other: "awaited ?ws t" if "awaited (workers s) t" for t
      using awaited_update_other [OF that recv(1)] recv(2) by simp
    have self: "awaited ?ws ?n" using awaited_update_self [OF recv(1)] .
    show ?thesis
      unfolding waits_inv_def recv(4)
      using inv other self
      by (auto simp: waits_inv_def nth_append less_Suc_eq)
  next
    case panic
    then show ?thesis by (auto intro: waits_inv_frame [OF inv])
  next
    case exit
    have other: "awaited ((workers s)[i := WExited]) t" if "awaited (workers s) t" for t
      using awaited_update_other [OF that exit(1)] exit(2) by simp
    show ?thesis
      unfolding waits_inv_def exit(6)
      using inv other by (auto simp: waits_inv_def)
  qed
next
  case (TaskSendMsg t)
  from st [unfolded TaskSendMsg] show ?thesis
  proof (cases rule: task_SendMsg_cases)
    case (returns d')
    show ?thesis
      unfolding waits_inv_def returns(4)
      using inv returns(1,2) by (auto simp: waits_inv_def nth_list_update)
  next
    case (ends h)
    show ?thesis
      unfolding waits_inv_def ends(3)
      using inv by (auto simp: waits_inv_def)
  qed
next
  case (TaskClose t)
  from st [unfolded TaskClose] show ?thesis
  proof (cases rule: task_close_cases)
    case 1
    show ?thesis
      unfolding waits_inv_def 1(3)
      using inv 1(1,2) by (auto simp: waits_inv_def nth_list_update)
  qed
next
  case (WorkerDone i)
  from st [unfolded WorkerDone] show ?thesis
  proof (cases rule: processJob_done_cases)
    case (1 job t)
    have other: "awaited ((workers s)[i := WRange]) t'" if "awaited (workers s) t'" "t' \<noteq> t" for t'
      using awaited_update_other [OF that(1) 1(1)] 1(2) that(2) by simp
    show ?thesis
      unfolding waits_inv_def 1(5)
      using inv other 1(3,4) by (auto simp: waits_inv_def)
  qed
next
  case (WorkerTimeout i)
  from st [unfolded WorkerTimeout] show ?thesis
  proof (cases rule: processJob_timeout_cases)
    case (1 job t)
    have other: "awaited ((workers s)[i := WRange]) t'" if "awaited (workers s) t'" "t' \<noteq> t" for t'
      using awaited_update_other [OF that(1) 1(1)] 1(2) that(2) by simp
    show ?thesis
      unfolding waits_inv_def 1(3)
      using inv other by (auto simp: waits_inv_def)
  qed
next
  case StopClose
  from st [unfolded StopClose] show ?thesis
    by (cases rule: Stop_close_cases) (auto intro: waits_inv_frame [OF inv])
next
  case StopWaitMain
  from st [unfolded StopWaitMain] show ?thesis
    by (cases rule: Stop_wait_main_cases) (auto intro: waits_inv_frame [OF inv])
next
  case StopWaitWorkers
  from st [unfolded StopWaitWorkers] show ?thesis
    by (cases rule: Stop_wait_workers_cases) (auto intro: waits_inv_frame [OF inv])
qed

lemma workers_length_step:
  assumes "step a s = Some s'"
  shows "length (workers s') = length (workers s)"
proof (cases a)
  case (Log d)
  then show ?thesis using assms by (auto simp: step_def go_sendData_def split: if_splits)
next
  case SendNil
  then show ?thesis using assms by (auto simp: step_def go_sendNil_def split: if_splits)
next
  case (SendData k)
  from assms [unfolded SendData] show ?thesis by (cases rule: sendData_cases) auto
next
  case (Add i l)
  then show ?thesis using assms by (auto simp: step_def AddLogger_def split: if_splits)
next
  case (Remove i)
  then show ?thesis using assms by (auto simp: step_def RemoveLogger_def split: if_splits)
next
  case CloseStopCh
  from assms [unfolded CloseStopCh] show ?thesis by (cases rule: close_stopCh_cases) auto
next
  case MainStopCase
  from assms [unfolded MainStopCase] show ?thesis by (cases rule: main_stop_case_cases) auto
next
  case MainRecv
  from assms [unfolded MainRecv] show ?thesis by (cases rule: main_recv_cases) auto
next
  case MainProcess
  from assms [unfolded MainProcess] show ?thesis by (cases rule: processLogData_cases) auto
next
  case MainSendJob
  from assms [unfolded MainSendJob] show ?thesis by (cases rule: send_job_cases) auto
next
  case MainDefer
  from assms [unfolded MainDefer] show ?thesis by (cases rule: main_defer_cases) auto
next
  case (WorkerRange i)
  from assms [unfolded WorkerRange] show ?thesis by (cases rule: runWorker_cases) auto
next
  case (TaskSendMsg t)
  from assms [unfolded TaskSendMsg] show ?thesis by (cases rule: task_SendMsg_cases) auto
next
  case (TaskClose t)
  from assms [unfolded TaskClose] show ?thesis by (cases rule: task_close_cases) auto
next
  case (WorkerDone i)
  from assms [unfolded WorkerDone] show ?thesis by (cases rule: processJob_done_cases) auto
next
  case (WorkerTimeout i)
  from assms [unfolded WorkerTimeout] show ?thesis by (cases rule: processJob_timeout_cases) auto
next
  case StopClose
  from assms [unfolded StopClose] show ?thesis by (cases rule: Stop_close_cases) auto
next
  case StopWaitMain
  from assms [unfolded StopWaitMain] show ?thesis by (cases rule: Stop_wait_main_cases) auto
next
  case StopWaitWorkers
  from assms [unfolded StopWaitWorkers] show ?thesis by (cases rule: Stop_wait_workers_cases) auto
qed

lemma started_inv_init: "started_inv (Start NewLoggerService)"
  by (simp add: started_inv_def queues_inv_def shutdown_inv_def waits_inv_def init_defs
      pending_def in_process_def make_chan_def)

lemma started_inv_step: "started_inv s \<Longrightarrow> step a s = Some s' \<Longrightarrow> started_inv s'"
  unfolding started_inv_def
  using queues_inv_step shutdown_inv_step waits_inv_step workers_length_step by metis

lemma started_inv_run:
  assumes "run sched (Start NewLoggerService) = Some ls"
  shows "started_inv ls"
  using assms started_inv_init started_inv_step by (rule run_invariant)

lemma exited_iff: "exited w \<longleftrightarrow> w = WExited"
  by (cases w) simp_all

lemma main_exited_iff: "main_exited pc \<longleftrightarrow> pc = MExited"
  by (cases pc) simp_all

lemma not_awaited_exited:
  assumes "\<forall>w \<in> set ws. exited w"
  shows "\<not> awaited ws t"
proof
  assume "awaited ws t"
  then obtain i job where "i < length ws" "ws ! i = WSelect job t"
    unfolding awaited_def by blast
  then have "WSelect job t \<in> set ws" by (metis nth_mem)
  then show False using assms by auto
qed


text \<open>
  C3. In every run of a started service, once \<^verbatim>\<open>Stop\<close> has returned: the main worker has
  left \<^verbatim>\<open>runMainWorker\<close> and each of the workers has left \<^verbatim>\<open>runWorker\<close>; the input channel is
  closed and empty, and every pointer that was ever accepted into it has been received and
  has had its snapshot taken, in the order of acceptance; the jobs created are exactly the
  jobs of these snapshots; the job channel is closed and empty, and every job created has
  been taken by a worker, in the order of creation, and handed to a goroutine of
  \<^verbatim>\<open>processJob\<close>; for each of these goroutines either \<^verbatim>\<open>doneCh\<close> is closed, and then its
  publish call has been made, or its worker left through the timeout case.
\<close>

theorem Stop_returns_after_drain:
  assumes "run sched (Start NewLoggerService) = Some ls" and "stopCall ls = SReturned"
  shows "mainWorker ls = MExited
       \<and> length (workers ls) = defaultNumWorkers \<and> (\<forall>w \<in> set (workers ls). w = WExited)
       \<and> is_closed (inputCh ls) \<and> buf (inputCh ls) = []
       \<and> map fst (dispatched ls) = accepted ls
       \<and> created ls = concat (map jobs_of_snapshot (dispatched ls))
       \<and> is_closed (jobCh ls) \<and> buf (jobCh ls) = []
       \<and> map tjob (tasks ls) = created ls
       \<and> (\<forall>t < length (tasks ls).
             tstate (tasks ls ! t) = TClosed
               \<and> (loggerID (tjob (tasks ls ! t)), logData (tjob (tasks ls ! t)))
                    \<in> (\<lambda>c. (fst c, fst (snd c))) ` set (calls ls)
             \<or> t \<in> set (timed_out ls))"
proof -
  have inv: "started_inv ls" using assms(1) by (rule started_inv_run)
  then have q: "queues_inv ls" and sh: "shutdown_inv ls" and w: "waits_inv ls"
    and n: "length (workers ls) = defaultNumWorkers"
    by (simp_all add: started_inv_def)
  have m: "mainWorker ls = MExited"
    using sh assms(2) by (simp add: shutdown_inv_def main_exited_iff)
  have ex: "\<forall>w \<in> set (workers ls). exited w"
    using sh assms(2) by (simp add: shutdown_inv_def)
  then have ws: "\<forall>w \<in> set (workers ls). w = WExited" by (simp add: exited_iff)
  have "0 < length (workers ls)" using n by (simp add: defaultNumWorkers_def)
  then have "\<exists>w \<in> set (workers ls). exited w" using ex by (metis nth_mem)
  then have jc: "is_closed (jobCh ls) \<and> buf (jobCh ls) = []"
    using sh unfolding shutdown_inv_def by blast
  have ic: "is_closed (inputCh ls) \<and> buf (inputCh ls) = []"
    using sh m by (simp add: shutdown_inv_def)
  have "accepted ls = received ls @ buf (inputCh ls)"
    "received ls = map fst (dispatched ls) @ in_process (mainWorker ls)"
    using q unfolding queues_inv_def by blast+
  then have acc: "map fst (dispatched ls) = accepted ls"
    by (simp add: m ic in_process_def)
  have cr: "created ls = concat (map jobs_of_snapshot (dispatched ls))"
    using q unfolding queues_inv_def by blast
  have "created ls = map tjob (tasks ls) @ buf (jobCh ls) @ pending (mainWorker ls)"
    using q unfolding queues_inv_def by blast
  then have tk: "map tjob (tasks ls) = created ls"
    by (simp add: m jc pending_def)
  have na: "\<not> awaited (workers ls) t" for t using not_awaited_exited [OF ex] .
  have fin: "\<forall>t < length (tasks ls).
      tstate (tasks ls ! t) = TClosed
        \<and> (loggerID (tjob (tasks ls ! t)), logData (tjob (tasks ls ! t)))
             \<in> (\<lambda>c. (fst c, fst (snd c))) ` set (calls ls)
      \<or> t \<in> set (timed_out ls)"
  proof (intro allI impI)
    fix t assume t: "t < length (tasks ls)"
    from w t na have "tstate (tasks ls ! t) = TClosed \<or> t \<in> set (timed_out ls)"
      unfolding waits_inv_def by blast
    moreover from w t have "tstate (tasks ls ! t) \<noteq> TStart \<longrightarrow>
        (loggerID (tjob (tasks ls ! t)), logData (tjob (tasks ls ! t)))
          \<in> (\<lambda>c. (fst c, fst (snd c))) ` set (calls ls)"
      unfolding waits_inv_def by blast
    ultimately show "tstate (tasks ls ! t) = TClosed
        \<and> (loggerID (tjob (tasks ls ! t)), logData (tjob (tasks ls ! t)))
             \<in> (\<lambda>c. (fst c, fst (snd c))) ` set (calls ls)
      \<or> t \<in> set (timed_out ls)"
      by auto
  qed
  show ?thesis using m n ws ic acc cr jc tk fin by (intro conjI) simp_all
qed

lemma full_state_run: "run full_schedule (Start NewLoggerService) = Some full_state"
  unfolding full_state_def full_schedule_def
  by (simp add: step_defs init_defs Let_def snapshot_jobs_def mockPublisher_def eval_nat_numeral)

lemma full_state_fields:
  "stopCall full_state = SReturned" "accepted full_state = [Some 0]"
  "map loggerID (created full_state) = [''P'']"
  "map (\<lambda>c. (fst c, fst (snd c))) (calls full_state) = [(''P'', 0)]"
  "timed_out full_state = []"
  unfolding full_state_def full_schedule_def
  by (simp_all add: step_defs init_defs Let_def snapshot_jobs_def mockPublisher_def eval_nat_numeral)

theorem Stop_returns_after_drain_witness:
  "run full_schedule (Start NewLoggerService) = Some full_state
   \<and> stopCall full_state = SReturned
   \<and> mainWorker full_state = MExited
   \<and> workers full_state = [WExited, WExited, WExited, WExited]
   \<and> buf (inputCh full_state) = [] \<and> buf (jobCh full_state) = []
   \<and> map fst (dispatched full_state) = [Some 0]
   \<and> map loggerID (map tjob (tasks full_state)) = [''P'']
   \<and> map tstate (tasks full_state) = [TClosed]"
proof -
  note r = Stop_returns_after_drain [OF full_state_run full_state_fields(1)]
  have m: "mainWorker full_state = MExited" using r by simp
  have "length (workers full_state) = 4" "\<forall>w \<in> set (workers full_state). w = WExited"
    using r by (simp_all add: defaultNumWorkers_def)
  then have ws: "workers full_state = [WExited, WExited, WExited, WExited]"
    by (auto simp: length_Suc_conv eval_nat_numeral)
  have b: "buf (inputCh full_state) = []" "buf (jobCh full_state) = []" using r by simp_all
  have d: "map fst (dispatched full_state) = [Some 0]" using r by (simp add: full_state_fields)
  have tj: "map tjob (tasks full_state) = created full_state" using r by simp
  then have t: "map loggerID (map tjob (tasks full_state)) = [''P'']"
    by (simp add: full_state_fields)
  then have len: "length (tasks full_state) = 1" by (metis length_map length_Cons list.size(3) One_nat_def)
  have "\<forall>t < length (tasks full_state). tstate (tasks full_state ! t) = TClosed"
    using r by (auto simp: full_state_fields)
  then have ts: "map tstate (tasks full_state) = [TClosed]"
    using len by (cases "tasks full_state") auto
  show ?thesis using full_state_run full_state_fields(1) m ws b d t ts by (intro conjI)
qed

section \<open>One publisher, three records\<close>

lemma scenario_state_fields:
  "halted scenario_state = None" "loggers scenario_state = scenario_registry"
  "senders scenario_state = []" "accepted scenario_state = [Some 0, Some 1, Some 2]"
  "buf (inputCh scenario_state) = [Some 0, Some 1, Some 2]"
  "heap scenario_state = [record_m1, record_m2, record_m3]"
  "received scenario_state = []" "dispatched scenario_state = []" "created scenario_state = []"
  "tasks scenario_state = []" "calls scenario_state = []" "buf (jobCh scenario_state) = []"
  "mainWorker scenario_state = MSelect"
  unfolding scenario_state_def scenario_schedule_def scenario_registry_def
  by (simp_all add: step_defs init_defs Let_def)

lemma scenario_inv_init: "scenario_inv scenario_state"
  by (simp add: scenario_inv_def queues_inv_def scenario_state_fields pending_def in_process_def)

lemma jobs_of_scenario_snapshot:
  "jobs_of_snapshot (Some k, scenario_registry)
     = [\<lparr>loggerID = ''P'', logger = mockPublisher, logData = k\<rparr>]"
  by (simp add: jobs_of_snapshot_def snapshot_jobs_def scenario_registry_def)

lemma scenario_created:
  assumes "\<forall>e \<in> set ds. snd e = scenario_registry" and "set (map fst ds) \<subseteq> Some ` A"
  shows "concat (map jobs_of_snapshot ds)
           = map (\<lambda>e. \<lparr>loggerID = ''P'', logger = mockPublisher, logData = the (fst e)\<rparr>) ds"
  using assms
proof (induction ds)
  case Nil
  then show ?case by simp
next
  case (Cons e ds)
  obtain p r where e: "e = (p, r)" by (cases e)
  with Cons.prems obtain k where "p = Some k" "r = scenario_registry" by auto
  then show ?case using Cons e by (simp add: jobs_of_scenario_snapshot)
qed

lemma scenario_jobs:
  assumes "scenario_inv s"
  shows "created s = map (\<lambda>e. \<lparr>loggerID = ''P'', logger = mockPublisher, logData = the (fst e)\<rparr>)
                       (dispatched s)"
    and "set (map fst (dispatched s)) \<subseteq> Some ` {0, 1, 2}"
proof -
  have q: "accepted s = received s @ buf (inputCh s)"
    "received s = map fst (dispatched s) @ in_process (mainWorker s)"
    "created s = concat (map jobs_of_snapshot (dispatched s))"
    using assms unfolding scenario_inv_def queues_inv_def by blast+
  have acc: "accepted s = [Some 0, Some 1, Some 2]" using assms unfolding scenario_inv_def by blast
  have "set (map fst (dispatched s)) \<subseteq> set (accepted s)" using q(1,2) by auto
  then show sub: "set (map fst (dispatched s)) \<subseteq> Some ` {0, 1, 2}" using acc by auto
  have "\<forall>e \<in> set (dispatched s). snd e = scenario_registry"
    using assms unfolding scenario_inv_def by blast
  then show "created s = map (\<lambda>e. \<lparr>loggerID = ''P'', logger = mockPublisher, logData = the (fst e)\<rparr>)
                       (dispatched s)"
    using scenario_created [OF _ sub] q(3) by simp
qed

lemma scenario_task:
  assumes "scenario_inv s" and "t < length (tasks s)"
  shows "logger (tjob (tasks s ! t)) = mockPublisher \<and> loggerID (tjob (tasks s ! t)) = ''P''
       \<and> logData (tjob (tasks s ! t)) < 3"
proof -
  have "created s = map tjob (tasks s) @ buf (jobCh s) @ pending (mainWorker s)"
    using assms(1) unfolding scenario_inv_def queues_inv_def by blast
  then have "tjob (tasks s ! t) \<in> set (created s)" using assms(2) by auto
  then obtain e where e: "e \<in> set (dispatched s)"
    "tjob (tasks s ! t) = \<lparr>loggerID = ''P'', logger = mockPublisher, logData = the (fst e)\<rparr>"
    using scenario_jobs(1) [OF assms(1)] by auto
  then have "fst e \<in> Some ` {0, 1, 2}" using scenario_jobs(2) [OF assms(1)] by auto
  then have "the (fst e) < 3" by auto
  then show ?thesis using e(2) by simp
qed

lemma mset_filter_update:
  assumes "t < length xs" and "\<not> P (xs ! t)" and "P y"
  shows "mset (map f (filter P (xs[t := y]))) = mset (map f (filter P xs)) + {#f y#}"
  using assms
proof (induction xs arbitrary: t)
  case Nil
  then show ?case by simp
next
  case (Cons x xs)
  then show ?case by (cases t) auto
qed

lemma mset_filter_update_same:
  assumes "t < length xs" and "P (xs ! t)" and "P y" and "f y = f (xs ! t)"
  shows "mset (map f (filter P (xs[t := y]))) = mset (map f (filter P xs))"
  using assms
proof (induction xs arbitrary: t)
  case Nil
  then show ?case by simp
next
  case (Cons x xs)
  then show ?case by (cases t) auto
qed


lemma task_SendMsg_mock:
  assumes "step (TaskSendMsg t) s = Some s'"
      and "logger (tjob (tasks s ! t)) = mockPublisher"
  shows "s' = s\<lparr>calls := calls s @ [(loggerID (tjob (tasks s ! t)), logData (tjob (tasks s ! t)),
                                     heap s ! logData (tjob (tasks s ! t)))],
               heap := (heap s)[logData (tjob (tasks s ! t)) := heap s ! logData (tjob (tasks s ! t))],
               tasks := (tasks s)[t := (tasks s ! t)\<lparr>tstate := TSent\<rparr>]\<rparr>"
  using assms
  by (auto simp: step_def task_SendMsg_def Let_def mockPublisher_def
      split: if_splits task_state.splits)

lemma scenario_inv_frame:
  assumes "scenario_inv s" and "queues_inv s'" and "loggers s' = loggers s"
      and "senders s' = senders s" and "accepted s' = accepted s" and "heap s' = heap s"
      and "dispatched s' = dispatched s" and "calls s' = calls s"
      and "mset (map (job_key \<circ> tjob) (filter called (tasks s')))
             = mset (map (job_key \<circ> tjob) (filter called (tasks s)))"
  shows "scenario_inv s'"
  using assms unfolding scenario_inv_def by simp

lemma scenario_inv_step:
  assumes inv: "scenario_inv s" and st: "step a s = Some s'" and sv: "service_step a"
  shows "scenario_inv s'"
proof -
  have "queues_inv s" using inv unfolding scenario_inv_def by blast
  then have q: "queues_inv s'" using st by (rule queues_inv_step)
  have sn: "senders s = []" using inv unfolding scenario_inv_def by blast
  show ?thesis
  proof (cases a)
    case (Log d)
    then show ?thesis using sv by simp
  next
    case SendNil
    then show ?thesis using sv by simp
  next
    case (SendData k)
    from st [unfolded SendData] show ?thesis
    proof (cases rule: sendData_cases)
      case sent
      then show ?thesis using sn by simp
    next
      case panic
      show ?thesis by (rule scenario_inv_frame [OF inv q]) (simp_all add: panic)
    qed
  next
    case (Add i l)
    then show ?thesis using sv by simp
  next
    case (Remove i)
    then show ?thesis using sv by simp
  next
    case CloseStopCh
    from st [unfolded CloseStopCh] show ?thesis
      by (cases rule: close_stopCh_cases) (rule scenario_inv_frame [OF inv q]; simp add: called_def)+
  next
    case MainStopCase
    from st [unfolded MainStopCase] show ?thesis
      by (cases rule: main_stop_case_cases) (rule scenario_inv_frame [OF inv q]; simp add: called_def)+
  next
    case MainRecv
    from st [unfolded MainRecv] show ?thesis
      by (cases rule: main_recv_cases) (rule scenario_inv_frame [OF inv q]; simp add: called_def)+
  next
    case MainProcess
    from st [unfolded MainProcess] show ?thesis
    proof (cases rule: processLogData_cases)
      case (1 in_range p jobs out)
      show ?thesis
        using inv q unfolding scenario_inv_def 1(3) by auto
    qed
  next
    case MainSendJob
    from st [unfolded MainSendJob] show ?thesis
      by (cases rule: send_job_cases) (rule scenario_inv_frame [OF inv q]; simp add: called_def)+
  next
    case MainDefer
    from st [unfolded MainDefer] show ?thesis
      by (cases rule: main_defer_cases) (rule scenario_inv_frame [OF inv q]; simp add: called_def)+
  next
    case (WorkerRange i)
    from st [unfolded WorkerRange] show ?thesis
      by (cases rule: runWorker_cases)
        (rule scenario_inv_frame [OF inv q]; simp add: called_def)+
  next
    case (TaskSendMsg t)
    from st [unfolded TaskSendMsg] have t: "t < length (tasks s)" "tstate (tasks s ! t) = TStart"
      by (cases rule: task_SendMsg_cases, simp_all)+
    let ?j = "tjob (tasks s ! t)"
    have j: "logger ?j = mockPublisher" "loggerID ?j = ''P''" "logData ?j < 3"
      using scenario_task [OF inv t(1)] by simp_all
    have hp: "heap s = [record_m1, record_m2, record_m3]"
      using inv unfolding scenario_inv_def by blast
    have s': "s' = s\<lparr>calls := calls s @ [(loggerID ?j, logData ?j, heap s ! logData ?j)],
               heap := (heap s)[logData ?j := heap s ! logData ?j],
               tasks := (tasks s)[t := (tasks s ! t)\<lparr>tstate := TSent\<rparr>]\<rparr>"
      using task_SendMsg_mock [OF st [unfolded TaskSendMsg] j(1)] .
    have ms: "mset (map (job_key \<circ> tjob) (filter called ((tasks s)[t := (tasks s ! t)\<lparr>tstate := TSent\<rparr>])))
        = mset (map (job_key \<circ> tjob) (filter called (tasks s)))
          + {#(job_key \<circ> tjob) ((tasks s ! t)\<lparr>tstate := TSent\<rparr>)#}"
      by (rule mset_filter_update [OF t(1)]) (simp_all add: called_def t(2))
    show ?thesis
      using inv q ms unfolding scenario_inv_def s'
      by (auto simp: call_key_def job_key_def hp)
  next
    case (TaskClose t)
    from st [unfolded TaskClose] show ?thesis
    proof (cases rule: task_close_cases)
      case 1
      have "mset (map (job_key \<circ> tjob) (filter called ((tasks s)[t := (tasks s ! t)\<lparr>tstate := TClosed\<rparr>])))
          = mset (map (job_key \<circ> tjob) (filter called (tasks s)))"
        by (rule mset_filter_update_same [OF 1(1)]) (simp_all add: called_def 1(2))
      then show ?thesis
        by (intro scenario_inv_frame [OF inv q]) (simp_all add: 1(3))
    qed
  next
    case (WorkerDone i)
    from st [unfolded WorkerDone] show ?thesis
      by (cases rule: processJob_done_cases) (rule scenario_inv_frame [OF inv q]; simp add: called_def)+
  next
    case (WorkerTimeout i)
    from st [unfolded WorkerTimeout] show ?thesis
      by (cases rule: processJob_timeout_cases) (rule scenario_inv_frame [OF inv q]; simp add: called_def)+
  next
    case StopClose
    from st [unfolded StopClose] show ?thesis
      by (cases rule: Stop_close_cases) (rule scenario_inv_frame [OF inv q]; simp add: called_def)+
  next
    case StopWaitMain
    from st [unfolded StopWaitMain] show ?thesis
      by (cases rule: Stop_wait_main_cases) (rule scenario_inv_frame [OF inv q]; simp add: called_def)+
  next
    case StopWaitWorkers
    from st [unfolded StopWaitWorkers] show ?thesis
      by (cases rule: Stop_wait_workers_cases) (rule scenario_inv_frame [OF inv q]; simp add: called_def)+
  qed
qed


lemma scenario_inv_run:
  assumes "run sched s = Some s'" and "\<forall>a \<in> set sched. service_step a" and "scenario_inv s"
  shows "scenario_inv s'"
  using assms
proof (induction sched arbitrary: s)
  case Nil
  then show ?case by simp
next
  case (Cons a as)
  then obtain s1 where s1: "step a s = Some s1" "run as s1 = Some s'"
    by (auto split: option.splits)
  have "scenario_inv s1" using Cons.prems(2,3) s1(1) by (simp add: scenario_inv_step)
  then show ?case using Cons.IH [OF s1(2)] Cons.prems(2) by simp
qed

lemma map_fst_eq_the:
  assumes "map fst ds = [Some a, Some b, Some c]"
  shows "map (\<lambda>e. f (the (fst e))) ds = [f a, f b, f c]"
proof -
  have "map (\<lambda>e. f (the (fst e))) ds = map (\<lambda>p. f (the p)) (map fst ds)" by (simp add: comp_def)
  then show ?thesis using assms by simp
qed

text \<open>
  C6, as stated, fails in its last part: with the four workers that \<^verbatim>\<open>Start\<close> sets up, two
  workers hold the jobs of the first two records at the same time, and the goroutine of
  the second may call the publisher first. The records enter the input channel in the
  order m1, m2, m3, and the publisher is called for m2, then m1, then m3.
\<close>

theorem publish_calls_out_of_order:
  "map_option accepted (run (scenario_schedule @ reorder_schedule) (Start NewLoggerService))
     = Some [Some 0, Some 1, Some 2]
   \<and> map_option heap (run (scenario_schedule @ reorder_schedule) (Start NewLoggerService))
     = Some [record_m1, record_m2, record_m3]
   \<and> map_option delivered (run (scenario_schedule @ reorder_schedule) (Start NewLoggerService))
     = Some [(''P'', WarnLevel, ''m2''), (''P'', InfoLevel, ''m1''), (''P'', ErrorLevel, ''m3'')]"
  unfolding scenario_schedule_def reorder_schedule_def delivered_def
  by (simp add: step_defs init_defs Let_def snapshot_jobs_def mockPublisher_def eval_nat_numeral
      call_view_def record_m1_def record_m2_def record_m3_def logMsg_def)

text \<open>
  C6, amended. With the one publisher \<open>P\<close> registered and the three records in the input
  channel, in every run in which nothing else is registered, removed or submitted: once
  nothing is left to do, the three jobs have been created in the order in which the
  records entered the input channel and have been handed to workers in that order, and
  \<open>P\<close> has been called exactly three times, once with each record, whose level and message
  are those that were enqueued. The order of the three calls is not determined.
\<close>

theorem three_records_three_calls:
  assumes "run sched scenario_state = Some ls" and "\<forall>a \<in> set sched. service_step a"
      and "all_delivered ls"
  shows "map job_key (created ls) = [(''P'', 0), (''P'', 1), (''P'', 2)]
       \<and> map tjob (tasks ls) = created ls
       \<and> mset (delivered ls)
           = {#(''P'', InfoLevel, ''m1''), (''P'', WarnLevel, ''m2''), (''P'', ErrorLevel, ''m3'')#}"
proof -
  have inv: "scenario_inv ls" using assms(1,2) scenario_inv_init by (rule scenario_inv_run)
  have q: "accepted ls = received ls @ buf (inputCh ls)"
    "received ls = map fst (dispatched ls) @ in_process (mainWorker ls)"
    "created ls = map tjob (tasks ls) @ buf (jobCh ls) @ pending (mainWorker ls)"
    using inv unfolding scenario_inv_def queues_inv_def by blast+
  have acc: "accepted ls = [Some 0, Some 1, Some 2]" using inv unfolding scenario_inv_def by blast
  have d: "map fst (dispatched ls) = [Some 0, Some 1, Some 2]"
    using q(1,2) acc assms(3) by (simp add: all_delivered_def)
  have cr: "created ls = [\<lparr>loggerID = ''P'', logger = mockPublisher, logData = 0\<rparr>,
      \<lparr>loggerID = ''P'', logger = mockPublisher, logData = 1\<rparr>,
      \<lparr>loggerID = ''P'', logger = mockPublisher, logData = 2\<rparr>]"
    using scenario_jobs(1) [OF inv] map_fst_eq_the [OF d] by simp
  then have k: "map job_key (created ls) = [(''P'', 0), (''P'', 1), (''P'', 2)]"
    by (simp add: job_key_def)
  have tk: "map tjob (tasks ls) = created ls" using q(3) assms(3) by (simp add: all_delivered_def)
  have "filter called (tasks ls) = tasks ls"
    using assms(3) by (simp add: all_delivered_def called_def)
  moreover have "mset (map call_key (calls ls)) = mset (map (job_key \<circ> tjob) (filter called (tasks ls)))"
    using inv unfolding scenario_inv_def by blast
  ultimately have "mset (map call_key (calls ls)) = mset (map job_key (map tjob (tasks ls)))"
    by simp
  then have ck: "mset (map call_key (calls ls)) = {#(''P'', 0), (''P'', 1), (''P'', 2)#}"
    using tk k by simp
  have ct: "\<forall>c \<in> set (calls ls). snd (snd c) = [record_m1, record_m2, record_m3] ! fst (snd c)"
    using inv unfolding scenario_inv_def by blast
  define g where "g = (\<lambda>k :: string \<times> addr.
      (fst k, Level ([record_m1, record_m2, record_m3] ! snd k),
       Msg ([record_m1, record_m2, record_m3] ! snd k)))"
  have "map call_view (calls ls) = map (\<lambda>c. g (call_key c)) (calls ls)"
    using ct by (intro map_cong) (simp_all add: call_view_def g_def call_key_def)
  then have "delivered ls = map g (map call_key (calls ls))"
    by (simp add: delivered_def comp_def)
  then have "mset (delivered ls) = image_mset g (mset (map call_key (calls ls)))"
    by (simp only: mset_map)
  then have dl: "mset (delivered ls)
      = {#(''P'', InfoLevel, ''m1''), (''P'', WarnLevel, ''m2''), (''P'', ErrorLevel, ''m3'')#}"
    unfolding ck by (simp add: g_def record_m1_def record_m2_def record_m3_def logMsg_def)
  show ?thesis using k tk dl by (intro conjI)
qed

lemma reordered_state_run: "run reorder_schedule scenario_state = Some reordered_state"
  unfolding reordered_state_def reorder_schedule_def scenario_state_def scenario_schedule_def
  by (simp add: step_defs init_defs Let_def snapshot_jobs_def mockPublisher_def eval_nat_numeral)

lemma reordered_state_delivered: "all_delivered reordered_state"
  unfolding reordered_state_def reorder_schedule_def scenario_state_def scenario_schedule_def
  by (simp add: step_defs init_defs Let_def snapshot_jobs_def mockPublisher_def eval_nat_numeral
      all_delivered_def pending_def in_process_def)

theorem three_records_three_calls_witness:
  "run reorder_schedule scenario_state = Some reordered_state
   \<and> list_all service_step reorder_schedule \<and> all_delivered reordered_state
   \<and> map job_key (created reordered_state) = [(''P'', 0), (''P'', 1), (''P'', 2)]
   \<and> mset (delivered reordered_state)
       = {#(''P'', InfoLevel, ''m1''), (''P'', WarnLevel, ''m2''), (''P'', ErrorLevel, ''m3'')#}"
proof -
  have sv: "\<forall>a \<in> set reorder_schedule. service_step a" by (simp add: reorder_schedule_def)
  have la: "list_all service_step reorder_schedule" by (simp add: reorder_schedule_def)
  from three_records_three_calls [OF reordered_state_run sv reordered_state_delivered]
  show ?thesis using reordered_state_run la reordered_state_delivered by simp
qed

end
